theory Spec2Isabelle
  imports Main "HOL-Library.Word" "HOL-Library.Signed_Division" "HOL-Library.Sublist"
begin

section \<open>Data model of 9cc.c\<close>

text \<open>
  The compiler reads one expression from \<^verbatim>\<open>argv[1]\<close>, tokenizes it into a linked
  list of tokens, parses the list by recursive descent into a binary tree and prints
  AArch64 assembly for the tree.

  A C \<^verbatim>\<open>int\<close> is a \<open>32 word\<close>, a \<^verbatim>\<open>long\<close> and a machine register a \<open>64 word\<close>
  (LP64). A pointer into \<^verbatim>\<open>user_input\<close> is the offset from its first byte, so that
  \<^verbatim>\<open>loc - user_input\<close> is the offset itself. Offsets and lengths are \<open>nat\<close>: they
  are bounded by the length of a command-line argument. \<^verbatim>\<open>user_input\<close> is the content
  of the C string, without its terminating NUL byte.
\<close>

datatype TokenKind = TK_RESERVED | TK_NUM | TK_EOF

text \<open>
  \<^verbatim>\<open>struct Token\<close>. The field \<^verbatim>\<open>next\<close> is the list structure: a \<^verbatim>\<open>Token *\<close> is the
  list of the tokens from that token on, \<^verbatim>\<open>NULL\<close> is \<open>[]\<close> and \<^verbatim>\<open>tok->next\<close> is the tail.
\<close>

record Token =
  kind :: TokenKind
  val :: "32 word"
  str :: nat
  len :: nat

text \<open>The two global variables.\<close>

record globals =
  user_input :: string
  token :: "Token list"

text \<open>
  \<^verbatim>\<open>error\<close> and \<^verbatim>\<open>error_at\<close> never return: they print to the error stream and call
  \<^verbatim>\<open>exit(1)\<close>. A call is a value of type \<open>abort\<close>, carrying the arguments of the call.
  The three format strings of \<^verbatim>\<open>error_at\<close> are the three messages. \<open>Null_pointer\<close> stands
  for a read through a \<^verbatim>\<open>NULL\<close> pointer, which the C program does not survive either.
\<close>

datatype message = Cannot_tokenize | Not_char string | Not_number

datatype abort = Error_at nat message | Error_usage string | Null_pointer

definition bind :: "abort + 'a \<Rightarrow> ('a \<Rightarrow> abort + 'b) \<Rightarrow> abort + 'b" where
  "bind m f = (case m of Inl e \<Rightarrow> Inl e | Inr x \<Rightarrow> f x)"

lemma bind_cong [fundef_cong]:
  "m = m' \<Longrightarrow> (\<And>x. m' = Inr x \<Longrightarrow> f x = f' x) \<Longrightarrow> bind m f = bind m' f'"
  by (auto simp: bind_def split: sum.splits)

lemma bind_Inr [simp]: "bind (Inr x) f = f x"
  by (simp add: bind_def)

lemma bind_Inl [simp]: "bind (Inl e) f = Inl e"
  by (simp add: bind_def)

lemma bindE:
  "bind m f = Inr y \<Longrightarrow> (\<And>x. m = Inr x \<Longrightarrow> f x = Inr y \<Longrightarrow> P) \<Longrightarrow> P"
  by (auto simp: bind_def split: sum.splits)

section \<open>Error reporting\<close>

definition newline :: char where
  "newline = CHR 0x0A"

text \<open>\<^verbatim>\<open>printf("%*s", w, s)\<close>: \<open>s\<close> right-justified in a field of at least \<open>w\<close> columns.\<close>

definition printf_width :: "nat \<Rightarrow> string \<Rightarrow> string" where
  "printf_width w s = replicate (w - length s) (CHR '' '') @ s"

text \<open>
  The messages are UTF-8 text. \<^verbatim>\<open>expect\<close> passes the pointer \<^verbatim>\<open>op\<close> where the format
  \<^verbatim>\<open>'%c'\<close> takes a character, so the byte printed between the quotes is the low byte of
  the address of the string literal: \<open>addr_byte op\<close>, a parameter of the model.
\<close>

definition message_text :: "(string \<Rightarrow> char) \<Rightarrow> message \<Rightarrow> string" where
  "message_text addr_byte m =
     (case m of
        Cannot_tokenize \<Rightarrow>
          [CHR 0xE3, CHR 0x83, CHR 0x88, CHR 0xE3, CHR 0x83, CHR 0xBC, CHR 0xE3, CHR 0x82, CHR 0xAF,
           CHR 0xE3, CHR 0x83, CHR 0x8A, CHR 0xE3, CHR 0x82, CHR 0xA4, CHR 0xE3, CHR 0x82, CHR 0xBA,
           CHR 0xE3, CHR 0x81, CHR 0xA7, CHR 0xE3, CHR 0x81, CHR 0x8D, CHR 0xE3, CHR 0x81, CHR 0xBE,
           CHR 0xE3, CHR 0x81, CHR 0x9B, CHR 0xE3, CHR 0x82, CHR 0x93]
      | Not_char op \<Rightarrow>
          [CHR 0x27, addr_byte op, CHR 0x27] @
          [CHR 0xE3, CHR 0x81, CHR 0xA7, CHR 0xE3, CHR 0x81, CHR 0xAF, CHR 0xE3, CHR 0x81, CHR 0x82,
           CHR 0xE3, CHR 0x82, CHR 0x8A, CHR 0xE3, CHR 0x81, CHR 0xBE, CHR 0xE3, CHR 0x81, CHR 0x9B,
           CHR 0xE3, CHR 0x82, CHR 0x93]
      | Not_number \<Rightarrow>
          [CHR 0xE6, CHR 0x95, CHR 0xB0, CHR 0xE3, CHR 0x81, CHR 0xA7, CHR 0xE3, CHR 0x81, CHR 0xAF,
           CHR 0xE3, CHR 0x81, CHR 0x82, CHR 0xE3, CHR 0x82, CHR 0x8A, CHR 0xE3, CHR 0x81, CHR 0xBE,
           CHR 0xE3, CHR 0x81, CHR 0x9B, CHR 0xE3, CHR 0x82, CHR 0x93])"

text \<open>What \<^verbatim>\<open>error_at(loc, fmt, ...)\<close> writes to the error stream before \<^verbatim>\<open>exit(1)\<close>.\<close>

definition error_at :: "(string \<Rightarrow> char) \<Rightarrow> string \<Rightarrow> nat \<Rightarrow> message \<Rightarrow> string" where
  "error_at addr_byte inp loc m =
     (let pos = loc in
        inp @ [newline] @
        printf_width pos '' '' @
        ''^ '' @
        message_text addr_byte m @
        [newline])"

text \<open>What \<^verbatim>\<open>error("%s: invalid number of arguments", argv[0])\<close> writes.\<close>

definition error :: "string \<Rightarrow> string" where
  "error prog = prog @ '': invalid number of arguments'' @ [newline]"

section \<open>The token cursor\<close>

text \<open>
  \<^verbatim>\<open>memcmp(p, q, n)\<close> as a truth value: \<open>True\<close> when the result is not zero, that is
  when the first \<open>n\<close> bytes differ.
\<close>

definition memcmp :: "string \<Rightarrow> string \<Rightarrow> nat \<Rightarrow> bool" where
  "memcmp p q n \<longleftrightarrow> take n p \<noteq> take n q"

text \<open>The condition shared by \<^verbatim>\<open>consume\<close> and \<^verbatim>\<open>expect\<close>: the token is not \<open>op\<close>.\<close>

definition mismatch :: "string \<Rightarrow> Token \<Rightarrow> string \<Rightarrow> bool" where
  "mismatch inp t op \<longleftrightarrow>
     kind t \<noteq> TK_RESERVED \<or> length op \<noteq> len t \<or> memcmp (drop (str t) inp) op (len t)"

definition consume :: "string \<Rightarrow> globals \<Rightarrow> abort + bool \<times> globals" where
  "consume op g =
     (case token g of
        [] \<Rightarrow> Inl Null_pointer
      | t # nxt \<Rightarrow>
          if mismatch (user_input g) t op then Inr (False, g)
          else Inr (True, g\<lparr>token := nxt\<rparr>))"

definition expect :: "string \<Rightarrow> globals \<Rightarrow> abort + globals" where
  "expect op g =
     (case token g of
        [] \<Rightarrow> Inl Null_pointer
      | t # nxt \<Rightarrow>
          if mismatch (user_input g) t op then Inl (Error_at (str t) (Not_char op))
          else Inr (g\<lparr>token := nxt\<rparr>))"

definition expect_number :: "globals \<Rightarrow> abort + 32 word \<times> globals" where
  "expect_number g =
     (case token g of
        [] \<Rightarrow> Inl Null_pointer
      | t # nxt \<Rightarrow>
          if kind t \<noteq> TK_NUM then Inl (Error_at (str t) Not_number)
          else Inr (val t, g\<lparr>token := nxt\<rparr>))"

definition at_eof :: "globals \<Rightarrow> abort + bool" where
  "at_eof g = (case token g of [] \<Rightarrow> Inl Null_pointer | t # nxt \<Rightarrow> Inr (kind t = TK_EOF))"

section \<open>Tokenizer\<close>

text \<open>\<^verbatim>\<open>calloc\<close> clears the token; \<^verbatim>\<open>cur->next = tok\<close> is \<open>link\<close> below.\<close>

definition new_token :: "TokenKind \<Rightarrow> nat \<Rightarrow> nat \<Rightarrow> Token" where
  "new_token k s l = \<lparr>kind = k, val = 0, str = s, len = l\<rparr>"

definition link :: "Token \<Rightarrow> abort + Token list \<Rightarrow> abort + Token list" where
  "link tok r = bind r (\<lambda>toks. Inr (tok # toks))"

definition startswith :: "string \<Rightarrow> string \<Rightarrow> bool" where
  "startswith p q \<longleftrightarrow> \<not> memcmp p q (length q)"

text \<open>\<^verbatim>\<open>isspace\<close> and \<^verbatim>\<open>isdigit\<close> in the C locale.\<close>

definition isspace :: "char \<Rightarrow> bool" where
  "isspace c \<longleftrightarrow> c \<in> set [CHR 0x20, CHR 0x09, CHR 0x0A, CHR 0x0B, CHR 0x0C, CHR 0x0D]"

definition isdigit :: "char \<Rightarrow> bool" where
  "isdigit c \<longleftrightarrow> c \<in> set ''0123456789''"

definition digit_val :: "char \<Rightarrow> nat" where
  "digit_val c = of_char c - 48"

definition decimal :: "string \<Rightarrow> nat" where
  "decimal ds = foldl (\<lambda>a c. 10 * a + digit_val c) 0 ds"

definition LONG_MAX :: nat where
  "LONG_MAX = 2 ^ 63 - 1"

text \<open>
  \<^verbatim>\<open>strtol(p, &p, 10)\<close> where \<open>p\<close> points at a digit, its only use: the value of the
  run of digits, \<open>LONG_MAX\<close> when the value does not fit a \<^verbatim>\<open>long\<close>, and the position
  after the run.
\<close>

definition strtol :: "string \<Rightarrow> nat \<Rightarrow> nat \<times> nat" where
  "strtol inp p =
     (let ds = takeWhile isdigit (drop p inp)
      in (min (decimal ds) LONG_MAX, p + length ds))"

lemma strtol_advances:
  "p < length inp \<Longrightarrow> isdigit (inp ! p) \<Longrightarrow> strtol inp p = (v, p') \<Longrightarrow> p < p' \<and> p' \<le> length inp"
proof -
  assume p: "p < length inp" and d: "isdigit (inp ! p)" and s: "strtol inp p = (v, p')"
  have "drop p inp = inp ! p # drop (Suc p) inp"
    using p by (simp add: Cons_nth_drop_Suc)
  with d have "0 < length (takeWhile isdigit (drop p inp))" by simp
  moreover have "length (takeWhile isdigit (drop p inp)) \<le> length (drop p inp)"
    by (rule length_takeWhile_le)
  ultimately show ?thesis using s p by (auto simp: strtol_def Let_def)
qed

text \<open>
  The loop of \<^verbatim>\<open>tokenize\<close>, from position \<open>p\<close>. \<^verbatim>\<open>*p\<close> is \<open>inp ! p\<close>, and the
  terminating NUL is read when \<open>p\<close> is the length of the input.
\<close>

function tokenize_loop :: "string \<Rightarrow> nat \<Rightarrow> abort + Token list" where
  "tokenize_loop inp p =
     (if length inp \<le> p then Inr [new_token TK_EOF p 0]
      else if isspace (inp ! p) then tokenize_loop inp (p + 1)
      else if startswith (drop p inp) ''=='' \<or> startswith (drop p inp) ''!='' \<or>
              startswith (drop p inp) ''<='' \<or> startswith (drop p inp) ''>=''
      then link (new_token TK_RESERVED p 2) (tokenize_loop inp (p + 2))
      else if inp ! p \<in> set ''+-*/()<>''
      then link (new_token TK_RESERVED p 1) (tokenize_loop inp (p + 1))
      else if isdigit (inp ! p)
      then (let q = p; (v, p') = strtol inp p
            in link ((new_token TK_NUM q 0)\<lparr>val := word_of_nat v, len := p' - q\<rparr>)
                 (tokenize_loop inp p'))
      else Inl (Error_at p Cannot_tokenize))"
  by pat_completeness auto

termination
proof (relation "measure (\<lambda>(inp, p). length inp - p)")
  show "wf (measure (\<lambda>(inp, p). length inp - p))" by simp
next
  fix inp :: string and p :: nat and x :: "nat \<times> nat" and v p' :: nat and q :: nat
  assume "\<not> length inp \<le> p" "isdigit (inp ! p)" "x = strtol inp p" "(v, p') = x"
  then show "((inp, p'), inp, p) \<in> measure (\<lambda>(inp, p). length inp - p)"
    using strtol_advances [of p inp v p'] by auto
qed auto

definition tokenize :: "globals \<Rightarrow> abort + Token list" where
  "tokenize g = tokenize_loop (user_input g) 0"

declare tokenize_loop.simps [simp del]

section \<open>Abstract syntax tree\<close>

datatype NodeKind = ND_ADD | ND_SUB | ND_MUL | ND_DIV | ND_EQ | ND_NE | ND_LT | ND_LE | ND_NUM

text \<open>
  \<^verbatim>\<open>struct Node\<close>: the two children are pointers and may be \<^verbatim>\<open>NULL\<close> (\<open>None\<close>);
  \<^verbatim>\<open>calloc\<close> sets them so, and the value to 0.
\<close>

datatype Node = Node (node_kind: NodeKind) (lhs: "Node option") (rhs: "Node option") (node_val: "32 word")

definition new_node :: "NodeKind \<Rightarrow> Node" where
  "new_node k = Node k None None 0"

definition new_binary :: "NodeKind \<Rightarrow> Node \<Rightarrow> Node \<Rightarrow> Node" where
  "new_binary k l r = (case new_node k of Node k' _ _ v \<Rightarrow> Node k' (Some l) (Some r) v)"

definition new_num :: "32 word \<Rightarrow> Node" where
  "new_num v = (case new_node ND_NUM of Node k' l r _ \<Rightarrow> Node k' l r v)"

section \<open>Parser\<close>

text \<open>
  One function for each function of the C program, and one for each of its
  \<^verbatim>\<open>for (;;)\<close> loops, which carries the local variable \<^verbatim>\<open>node\<close>. The global cursor
  \<^verbatim>\<open>token\<close> is threaded through the calls.
\<close>

function expr :: "globals \<Rightarrow> abort + Node \<times> globals"
  and equality :: "globals \<Rightarrow> abort + Node \<times> globals"
  and equality_loop :: "Node \<Rightarrow> globals \<Rightarrow> abort + Node \<times> globals"
  and relational :: "globals \<Rightarrow> abort + Node \<times> globals"
  and relational_loop :: "Node \<Rightarrow> globals \<Rightarrow> abort + Node \<times> globals"
  and add :: "globals \<Rightarrow> abort + Node \<times> globals"
  and add_loop :: "Node \<Rightarrow> globals \<Rightarrow> abort + Node \<times> globals"
  and mul :: "globals \<Rightarrow> abort + Node \<times> globals"
  and mul_loop :: "Node \<Rightarrow> globals \<Rightarrow> abort + Node \<times> globals"
  and unary :: "globals \<Rightarrow> abort + Node \<times> globals"
  and primary :: "globals \<Rightarrow> abort + Node \<times> globals"
where
  "expr g = equality g"
| "equality g = bind (relational g) (\<lambda>(node, g). equality_loop node g)"
| "equality_loop node g =
     bind (consume ''=='' g) (\<lambda>(c, g).
       if c then bind (relational g) (\<lambda>(r, g). equality_loop (new_binary ND_EQ node r) g)
       else bind (consume ''!='' g) (\<lambda>(c, g).
         if c then bind (relational g) (\<lambda>(r, g). equality_loop (new_binary ND_NE node r) g)
         else Inr (node, g)))"
| "relational g = bind (add g) (\<lambda>(node, g). relational_loop node g)"
| "relational_loop node g =
     bind (consume ''<'' g) (\<lambda>(c, g).
       if c then bind (add g) (\<lambda>(r, g). relational_loop (new_binary ND_LT node r) g)
       else bind (consume ''<='' g) (\<lambda>(c, g).
         if c then bind (add g) (\<lambda>(r, g). relational_loop (new_binary ND_LE node r) g)
         else bind (consume ''>'' g) (\<lambda>(c, g).
           if c then bind (add g) (\<lambda>(r, g). relational_loop (new_binary ND_LT r node) g)
           else bind (consume ''>='' g) (\<lambda>(c, g).
             if c then bind (add g) (\<lambda>(r, g). relational_loop (new_binary ND_LE r node) g)
             else Inr (node, g)))))"
| "add g = bind (mul g) (\<lambda>(node, g). add_loop node g)"
| "add_loop node g =
     bind (consume ''+'' g) (\<lambda>(c, g).
       if c then bind (mul g) (\<lambda>(r, g). add_loop (new_binary ND_ADD node r) g)
       else bind (consume ''-'' g) (\<lambda>(c, g).
         if c then bind (mul g) (\<lambda>(r, g). add_loop (new_binary ND_SUB node r) g)
         else Inr (node, g)))"
| "mul g = bind (unary g) (\<lambda>(node, g). mul_loop node g)"
| "mul_loop node g =
     bind (consume ''*'' g) (\<lambda>(c, g).
       if c then bind (unary g) (\<lambda>(r, g). mul_loop (new_binary ND_MUL node r) g)
       else bind (consume ''/'' g) (\<lambda>(c, g).
         if c then bind (unary g) (\<lambda>(r, g). mul_loop (new_binary ND_DIV node r) g)
         else Inr (node, g)))"
| "unary g =
     bind (consume ''+'' g) (\<lambda>(c, g).
       if c then primary g
       else bind (consume ''-'' g) (\<lambda>(c, g).
         if c then bind (primary g) (\<lambda>(r, g). Inr (new_binary ND_SUB (new_num 0) r, g))
         else primary g))"
| "primary g =
     bind (consume ''('' g) (\<lambda>(c, g).
       if c then bind (expr g) (\<lambda>(node, g). bind (expect '')'' g) (\<lambda>g. Inr (node, g)))
       else bind (expect_number g) (\<lambda>(v, g). Inr (new_num v, g)))"
  by pat_completeness auto

text \<open>
  Termination: every call either moves the cursor forward, or leaves it in place and
  goes down one level of the grammar. That a callee returns with the cursor moved is
  first shown on the domain of the functions.
\<close>

lemma consume_cases:
  "consume op g = Inr (c, g') \<Longrightarrow>
     (c \<longrightarrow> length (token g') < length (token g)) \<and> (\<not> c \<longrightarrow> g' = g)"
  by (auto simp: consume_def split: list.splits if_splits)

lemma expect_shrinks: "expect op g = Inr g' \<Longrightarrow> length (token g') < length (token g)"
  by (auto simp: expect_def split: list.splits if_splits)

lemma expect_number_shrinks:
  "expect_number g = Inr (v, g') \<Longrightarrow> length (token g') < length (token g)"
  by (auto simp: expect_number_def split: list.splits if_splits)

abbreviation ahead :: "globals \<Rightarrow> globals \<Rightarrow> bool" where
  "ahead g' g \<equiv> length (token g') < length (token g)"

abbreviation not_behind :: "globals \<Rightarrow> globals \<Rightarrow> bool" where
  "not_behind g' g \<equiv> length (token g') \<le> length (token g)"

lemma parser_shrinks:
  "expr_equality_equality_loop_relational_relational_loop_add_add_loop_mul_mul_loop_unary_primary_dom (Inl (Inl (Inl g1))) \<Longrightarrow> (\<forall>n g'. expr g1 = Inr (n, g') \<longrightarrow> ahead g' g1)"
  "expr_equality_equality_loop_relational_relational_loop_add_add_loop_mul_mul_loop_unary_primary_dom (Inl (Inl (Inr g2))) \<Longrightarrow> (\<forall>n g'. equality g2 = Inr (n, g') \<longrightarrow> ahead g' g2)"
  "expr_equality_equality_loop_relational_relational_loop_add_add_loop_mul_mul_loop_unary_primary_dom (Inl (Inr (Inl (n3, g3)))) \<Longrightarrow> (\<forall>n g'. equality_loop n3 g3 = Inr (n, g') \<longrightarrow> not_behind g' g3)"
  "expr_equality_equality_loop_relational_relational_loop_add_add_loop_mul_mul_loop_unary_primary_dom (Inl (Inr (Inr (Inl g4)))) \<Longrightarrow> (\<forall>n g'. relational g4 = Inr (n, g') \<longrightarrow> ahead g' g4)"
  "expr_equality_equality_loop_relational_relational_loop_add_add_loop_mul_mul_loop_unary_primary_dom (Inl (Inr (Inr (Inr (n5, g5))))) \<Longrightarrow> (\<forall>n g'. relational_loop n5 g5 = Inr (n, g') \<longrightarrow> not_behind g' g5)"
  "expr_equality_equality_loop_relational_relational_loop_add_add_loop_mul_mul_loop_unary_primary_dom (Inr (Inl (Inl g6))) \<Longrightarrow> (\<forall>n g'. add g6 = Inr (n, g') \<longrightarrow> ahead g' g6)"
  "expr_equality_equality_loop_relational_relational_loop_add_add_loop_mul_mul_loop_unary_primary_dom (Inr (Inl (Inr (Inl (n7, g7))))) \<Longrightarrow> (\<forall>n g'. add_loop n7 g7 = Inr (n, g') \<longrightarrow> not_behind g' g7)"
  "expr_equality_equality_loop_relational_relational_loop_add_add_loop_mul_mul_loop_unary_primary_dom (Inr (Inl (Inr (Inr g8)))) \<Longrightarrow> (\<forall>n g'. mul g8 = Inr (n, g') \<longrightarrow> ahead g' g8)"
  "expr_equality_equality_loop_relational_relational_loop_add_add_loop_mul_mul_loop_unary_primary_dom (Inr (Inr (Inl (n9, g9)))) \<Longrightarrow> (\<forall>n g'. mul_loop n9 g9 = Inr (n, g') \<longrightarrow> not_behind g' g9)"
  "expr_equality_equality_loop_relational_relational_loop_add_add_loop_mul_mul_loop_unary_primary_dom (Inr (Inr (Inr (Inl g10)))) \<Longrightarrow> (\<forall>n g'. unary g10 = Inr (n, g') \<longrightarrow> ahead g' g10)"
  "expr_equality_equality_loop_relational_relational_loop_add_add_loop_mul_mul_loop_unary_primary_dom (Inr (Inr (Inr (Inr g11)))) \<Longrightarrow> (\<forall>n g'. primary g11 = Inr (n, g') \<longrightarrow> ahead g' g11)"
proof (induct g1 and g2 and n3 g3 and g4 and n5 g5 and g6 and n7 g7 and g8 and n9 g9 and g10 and g11
    rule: expr_equality_equality_loop_relational_relational_loop_add_add_loop_mul_mul_loop_unary_primary.pinduct)
  case (1 g)
  then show ?case by (simp add: expr.psimps)
next
  case (2 g)
  then show ?case
    by (auto simp: equality.psimps elim!: bindE) fastforce
next
  case (3 node g)
  show ?case
    using "3.hyps"(2-) unfolding equality_loop.psimps [OF "3.hyps"(1)]
    apply (intro allI impI)
    apply (erule bindE)
    apply (clarsimp split: if_splits)
     apply (erule bindE, clarsimp, drule consume_cases, fastforce)
    apply (erule bindE, clarsimp split: if_splits)
     apply (erule bindE, clarsimp, (drule consume_cases)+, fastforce)
    apply ((drule consume_cases)+, fastforce)
    done
next
  case (4 g)
  then show ?case
    by (auto simp: relational.psimps elim!: bindE) fastforce
next
  case (5 node g)
  note IH = "5.hyps"(2-)
  have NF: "\<not> False" by simp
  show ?case
  proof (intro allI impI)
    fix n g' assume R: "relational_loop node g = Inr (n, g')"
    note R0 = R [unfolded relational_loop.psimps [OF "5.hyps"(1)]]
    from R0 obtain c1 h1 where C1: "consume ''<'' g = Inr (c1, h1)"
      by (auto simp: bind_def split: sum.splits)
    show "not_behind g' g"
    proof (cases c1)
      case True
      with C1 have T: "consume ''<'' g = Inr (True, h1)" by simp
      with R0 obtain r g2 where A: "add h1 = Inr (r, g2)"
        and L: "relational_loop (new_binary ND_LT node r) g2 = Inr (n, g')"
        by (auto simp: bind_def split: sum.splits)
      from IH(1) [OF T refl TrueI] A have "ahead g2 h1" by simp
      moreover from IH(2) [OF T refl TrueI A refl] L have "not_behind g' g2" by simp
      moreover from consume_cases [OF T] have "ahead h1 g" by simp
      ultimately show ?thesis by simp
    next
      case False
      with consume_cases [OF C1] C1 have F1: "consume ''<'' g = Inr (False, g)" by simp
      from R0 F1 obtain c2 h2 where C2: "consume ''<='' g = Inr (c2, h2)"
        by (auto simp: bind_def split: sum.splits)
      show "not_behind g' g"
      proof (cases c2)
        case True
        with C2 have T: "consume ''<='' g = Inr (True, h2)" by simp
        with R0 F1 obtain r g2 where A: "add h2 = Inr (r, g2)"
          and L: "relational_loop (new_binary ND_LE node r) g2 = Inr (n, g')"
          by (auto simp: bind_def split: sum.splits)
        from IH(3) [OF F1 refl NF T refl TrueI] A have "ahead g2 h2" by simp
        moreover from IH(4) [OF F1 refl NF T refl TrueI A refl] L have "not_behind g' g2" by simp
        moreover from consume_cases [OF T] have "ahead h2 g" by simp
        ultimately show ?thesis by simp
      next
        case False
        with consume_cases [OF C2] C2 have F2: "consume ''<='' g = Inr (False, g)" by simp
        from R0 F1 F2 obtain c3 h3 where C3: "consume ''>'' g = Inr (c3, h3)"
          by (auto simp: bind_def split: sum.splits)
        show "not_behind g' g"
        proof (cases c3)
          case True
          with C3 have T: "consume ''>'' g = Inr (True, h3)" by simp
          with R0 F1 F2 obtain r g2 where A: "add h3 = Inr (r, g2)"
            and L: "relational_loop (new_binary ND_LT r node) g2 = Inr (n, g')"
            by (auto simp: bind_def split: sum.splits)
          from IH(5) [OF F1 refl NF F2 refl NF T refl TrueI] A have "ahead g2 h3" by simp
          moreover from IH(6) [OF F1 refl NF F2 refl NF T refl TrueI A refl] L have "not_behind g' g2" by simp
          moreover from consume_cases [OF T] have "ahead h3 g" by simp
          ultimately show ?thesis by simp
        next
          case False
          with consume_cases [OF C3] C3 have F3: "consume ''>'' g = Inr (False, g)" by simp
          from R0 F1 F2 F3 obtain c4 h4 where C4: "consume ''>='' g = Inr (c4, h4)"
            by (auto simp: bind_def split: sum.splits)
          show "not_behind g' g"
          proof (cases c4)
            case True
            with C4 have T: "consume ''>='' g = Inr (True, h4)" by simp
            with R0 F1 F2 F3 obtain r g2 where A: "add h4 = Inr (r, g2)"
              and L: "relational_loop (new_binary ND_LE r node) g2 = Inr (n, g')"
              by (auto simp: bind_def split: sum.splits)
            from IH(7) [OF F1 refl NF F2 refl NF F3 refl NF T refl TrueI] A have "ahead g2 h4" by simp
            moreover from IH(8) [OF F1 refl NF F2 refl NF F3 refl NF T refl TrueI A refl] L have "not_behind g' g2" by simp
            moreover from consume_cases [OF T] have "ahead h4 g" by simp
            ultimately show ?thesis by simp
          next
            case False
            with consume_cases [OF C4] C4 have F4: "consume ''>='' g = Inr (False, g)" by simp
            from R0 F1 F2 F3 F4 show ?thesis
              by (auto simp: bind_def split: sum.splits)
          qed
        qed
      qed
    qed
  qed
next
  case (6 g)
  then show ?case
    by (auto simp: add.psimps elim!: bindE) fastforce
next
  case (7 node g)
  show ?case
    using "7.hyps"(2-) unfolding add_loop.psimps [OF "7.hyps"(1)]
    apply (intro allI impI)
    apply (erule bindE)
    apply (clarsimp split: if_splits)
     apply (erule bindE, clarsimp, drule consume_cases, fastforce)
    apply (erule bindE, clarsimp split: if_splits)
     apply (erule bindE, clarsimp, (drule consume_cases)+, fastforce)
    apply ((drule consume_cases)+, fastforce)
    done
next
  case (8 g)
  then show ?case
    by (auto simp: mul.psimps elim!: bindE) fastforce
next
  case (9 node g)
  show ?case
    using "9.hyps"(2-) unfolding mul_loop.psimps [OF "9.hyps"(1)]
    apply (intro allI impI)
    apply (erule bindE)
    apply (clarsimp split: if_splits)
     apply (erule bindE, clarsimp, drule consume_cases, fastforce)
    apply (erule bindE, clarsimp split: if_splits)
     apply (erule bindE, clarsimp, (drule consume_cases)+, fastforce)
    apply ((drule consume_cases)+, fastforce)
    done
next
  case (10 g)
  show ?case
    using "10.hyps"(2-) unfolding unary.psimps [OF "10.hyps"(1)]
    apply (intro allI impI)
    apply (erule bindE)
    apply (clarsimp split: if_splits)
     apply (drule consume_cases, fastforce)
    apply (erule bindE, clarsimp split: if_splits)
     apply (erule bindE, clarsimp, (drule consume_cases)+, fastforce)
    apply ((drule consume_cases)+, fastforce)
    done
next
  case (11 g)
  show ?case
    using "11.hyps"(2-) unfolding primary.psimps [OF "11.hyps"(1)]
    apply (intro allI impI)
    apply (erule bindE)
    apply (clarsimp split: if_splits)
     apply (erule bindE, clarsimp, erule bindE, clarsimp, drule consume_cases, drule expect_shrinks, fastforce)
    apply (erule bindE, clarsimp, drule consume_cases, drule expect_number_shrinks, fastforce)
    done
qed

definition parser_state ::
  "((globals + globals) + (Node \<times> globals) + globals + (Node \<times> globals)) +
   ((globals + (Node \<times> globals) + globals) + (Node \<times> globals) + globals + globals) \<Rightarrow> globals" where
  "parser_state =
     case_sum (case_sum (case_sum id id) (case_sum snd (case_sum id snd)))
              (case_sum (case_sum id (case_sum snd id)) (case_sum snd (case_sum id id)))"

definition parser_rank ::
  "((globals + globals) + (Node \<times> globals) + globals + (Node \<times> globals)) +
   ((globals + (Node \<times> globals) + globals) + (Node \<times> globals) + globals + globals) \<Rightarrow> nat" where
  "parser_rank =
     case_sum (case_sum (case_sum (\<lambda>_. 6) (\<lambda>_. 5)) (case_sum (\<lambda>_. 0) (case_sum (\<lambda>_. 4) (\<lambda>_. 0))))
              (case_sum (case_sum (\<lambda>_. 3) (case_sum (\<lambda>_. 0) (\<lambda>_. 2))) (case_sum (\<lambda>_. 0) (case_sum (\<lambda>_. 1) (\<lambda>_. 0))))"

termination expr
  apply (relation "measures [\<lambda>x. length (token (parser_state x)), parser_rank]")
  apply (simp_all add: parser_state_def parser_rank_def)
  apply (auto dest!: consume_cases dest: parser_shrinks [rule_format])
  done

declare expr.simps [simp del] equality.simps [simp del] equality_loop.simps [simp del]
  relational.simps [simp del] relational_loop.simps [simp del] add.simps [simp del]
  add_loop.simps [simp del] mul.simps [simp del] mul_loop.simps [simp del]
  unary.simps [simp del] primary.simps [simp del]

section \<open>Code generator\<close>

text \<open>
  Each \<^verbatim>\<open>printf\<close> of \<^verbatim>\<open>gen\<close> and \<^verbatim>\<open>main\<close> writes one line of assembly. A line is a
  value of type \<open>instr\<close>, and \<open>asm_line\<close> gives back the text that \<^verbatim>\<open>printf\<close> writes.
\<close>

datatype reg = X0 | X1 | X2

datatype cond = EQ | NE | LT | LE

datatype instr =
    GLOBL string
  | LABEL string
  | MOV reg "32 word"
  | STR_pre reg
  | LDR_post reg
  | ADD reg reg reg
  | SUB reg reg reg
  | MUL reg reg reg
  | SDIV reg reg reg
  | CMP reg reg
  | CSET reg cond
  | RET

text \<open>The \<^verbatim>\<open>switch\<close> of \<^verbatim>\<open>gen\<close>; it has no case for \<^verbatim>\<open>ND_NUM\<close>.\<close>

definition gen_op :: "NodeKind \<Rightarrow> instr list" where
  "gen_op k =
     (case k of
        ND_ADD \<Rightarrow> [ADD X0 X0 X1]
      | ND_SUB \<Rightarrow> [SUB X0 X0 X1]
      | ND_MUL \<Rightarrow> [MUL X0 X0 X1]
      | ND_DIV \<Rightarrow> [SDIV X0 X0 X1]
      | ND_EQ \<Rightarrow> [CMP X0 X1, CSET X0 EQ]
      | ND_NE \<Rightarrow> [CMP X0 X1, CSET X0 NE]
      | ND_LT \<Rightarrow> [CMP X0 X1, CSET X0 LT]
      | ND_LE \<Rightarrow> [CMP X0 X1, CSET X0 LE]
      | ND_NUM \<Rightarrow> [])"

text \<open>
  \<^verbatim>\<open>gen\<close> returns the lines it prints, in order. Called on a \<^verbatim>\<open>NULL\<close> child it reads
  \<^verbatim>\<open>node->kind\<close> through the null pointer.
\<close>

fun gen :: "Node \<Rightarrow> abort + instr list" where
  "gen (Node k l r v) =
     (if k = ND_NUM then Inr [MOV X2 v, STR_pre X2]
      else
        (case l of
           None \<Rightarrow> Inl Null_pointer
         | Some a \<Rightarrow>
             bind (gen a) (\<lambda>code_l.
               (case r of
                  None \<Rightarrow> Inl Null_pointer
                | Some b \<Rightarrow>
                    bind (gen b) (\<lambda>code_r.
                      Inr (code_l @ code_r @
                           [LDR_post X1, LDR_post X0] @
                           gen_op k @
                           [STR_pre X0]))))))"

subsection \<open>The text of a line\<close>

fun show_nat :: "nat \<Rightarrow> string" where
  "show_nat n =
     (if n < 10 then [char_of (48 + n)]
      else show_nat (n div 10) @ [char_of (48 + n mod 10)])"

declare show_nat.simps [simp del]

text \<open>\<^verbatim>\<open>%d\<close>.\<close>

definition show_int :: "int \<Rightarrow> string" where
  "show_int i = (if i < 0 then CHR ''-'' # show_nat (nat (- i)) else show_nat (nat i))"

definition reg_name :: "reg \<Rightarrow> string" where
  "reg_name r = (case r of X0 \<Rightarrow> ''x0'' | X1 \<Rightarrow> ''x1'' | X2 \<Rightarrow> ''x2'')"

definition cond_name :: "cond \<Rightarrow> string" where
  "cond_name c = (case c of EQ \<Rightarrow> ''EQ'' | NE \<Rightarrow> ''NE'' | LT \<Rightarrow> ''LT'' | LE \<Rightarrow> ''LE'')"

definition operands3 :: "reg \<Rightarrow> reg \<Rightarrow> reg \<Rightarrow> string" where
  "operands3 d n m = reg_name d @ '', '' @ reg_name n @ '', '' @ reg_name m"

text \<open>The line of \<^verbatim>\<open>mul\<close> is printed with one leading blank, the others with two.\<close>

definition asm_line :: "instr \<Rightarrow> string" where
  "asm_line i =
     (case i of
        GLOBL s \<Rightarrow> ''.globl '' @ s
      | LABEL s \<Rightarrow> s @ '':''
      | MOV d v \<Rightarrow> ''  mov '' @ reg_name d @ '', #'' @ show_int (sint v)
      | STR_pre t \<Rightarrow> ''  str '' @ reg_name t @ '', [sp, -16]!''
      | LDR_post t \<Rightarrow> ''  ldr '' @ reg_name t @ '', [sp], 16''
      | ADD d n m \<Rightarrow> ''  add '' @ operands3 d n m
      | SUB d n m \<Rightarrow> ''  sub '' @ operands3 d n m
      | MUL d n m \<Rightarrow> '' mul '' @ operands3 d n m
      | SDIV d n m \<Rightarrow> ''  sdiv '' @ operands3 d n m
      | CMP n m \<Rightarrow> ''  cmp '' @ reg_name n @ '', '' @ reg_name m
      | CSET d c \<Rightarrow> ''  cset '' @ reg_name d @ '', '' @ cond_name c
      | RET \<Rightarrow> ''  ret'') @ [newline]"

definition asm_text :: "instr list \<Rightarrow> string" where
  "asm_text prog = concat (map asm_line prog)"

section \<open>Driver\<close>

text \<open>
  \<^verbatim>\<open>main\<close> from \<^verbatim>\<open>user_input = argv[1]\<close> on: the lines it prints when nothing aborts.
  Nothing is printed before the parser has returned.
\<close>

definition compile :: "string \<Rightarrow> abort + instr list" where
  "compile arg =
     (let g = \<lparr>user_input = arg, token = []\<rparr>
      in bind (tokenize g) (\<lambda>toks.
         bind (expr (g\<lparr>token := toks\<rparr>)) (\<lambda>(node, g).
         bind (gen node) (\<lambda>code.
           Inr ([GLOBL ''main'', LABEL ''main''] @ code @ [LDR_post X0, RET])))))"

text \<open>
  What the process leaves behind: its two output streams and its exit status. \<open>argv\<close>
  is the argument vector, the name of the program first; started with an empty vector the
  program passes the null pointer \<^verbatim>\<open>argv[0]\<close> to \<^verbatim>\<open>%s\<close>, which the C library prints as
  \<^verbatim>\<open>(null)\<close>.
\<close>

datatype outcome = Exited (stdout: string) (stderr: string) (status: int) | Crashed

definition main :: "(string \<Rightarrow> char) \<Rightarrow> string list \<Rightarrow> outcome" where
  "main addr_byte argv =
     (case (if length argv \<noteq> 2
            then Inl (Error_usage (case argv of [] \<Rightarrow> ''(null)'' | prog # _ \<Rightarrow> prog))
            else compile (argv ! 1)) of
        Inr prog \<Rightarrow> Exited (asm_text prog) [] 0
      | Inl (Error_usage prog) \<Rightarrow> Exited [] (error prog) 1
      | Inl (Error_at loc m) \<Rightarrow> Exited [] (error_at addr_byte (argv ! 1) loc m) 1
      | Inl Null_pointer \<Rightarrow> Crashed)"

section \<open>The target machine\<close>

text \<open>
  The instructions that the compiler emits, with their AArch64 meaning. The stack is the
  list of the 16-byte slots between \<^verbatim>\<open>sp\<close> and its value on entry, the top first:
  \<^verbatim>\<open>str xN, [sp, -16]!\<close> pushes a register and \<^verbatim>\<open>ldr xN, [sp], 16\<close> pops one. A pop from
  the empty list would read the caller's memory and is a fault here.
\<close>

record flags =
  flag_n :: bool
  flag_z :: bool
  flag_c :: bool
  flag_v :: bool

record machine =
  regs :: "reg \<Rightarrow> 64 word"
  stack :: "64 word list"
  nzcv :: flags

text \<open>\<^verbatim>\<open>cmp xn, xm\<close> sets the flags of the subtraction \<open>a - b\<close>.\<close>

definition cmp_flags :: "64 word \<Rightarrow> 64 word \<Rightarrow> flags" where
  "cmp_flags a b =
     \<lparr>flag_n = (sint (a - b) < 0),
      flag_z = (a - b = 0),
      flag_c = (unat b \<le> unat a),
      flag_v = (sint (a - b) \<noteq> sint a - sint b)\<rparr>"

definition cond_holds :: "cond \<Rightarrow> flags \<Rightarrow> bool" where
  "cond_holds c f =
     (case c of
        EQ \<Rightarrow> flag_z f
      | NE \<Rightarrow> \<not> flag_z f
      | LT \<Rightarrow> flag_n f \<noteq> flag_v f
      | LE \<Rightarrow> flag_z f \<or> flag_n f \<noteq> flag_v f)"

text \<open>\<^verbatim>\<open>sdiv\<close>: the quotient rounded towards zero, 0 when the divisor is 0, wrapped to 64 bits.\<close>

definition sdiv64 :: "64 word \<Rightarrow> 64 word \<Rightarrow> 64 word" where
  "sdiv64 a b = word_of_int (sint a sdiv sint b)"

definition set_reg :: "reg \<Rightarrow> 64 word \<Rightarrow> machine \<Rightarrow> machine" where
  "set_reg r w m = m\<lparr>regs := (regs m)(r := w)\<rparr>"

text \<open>
  The effect of one line that falls through to the next, on the registers, the stack and
  the flags; \<^verbatim>\<open>ret\<close> does not fall through. The lines are lines of assembly text:
  \<^verbatim>\<open>mov xd, #imm\<close> means that \<^verbatim>\<open>xd\<close> becomes the 64-bit value written, the sign-extended
  \<^verbatim>\<open>int\<close> that \<^verbatim>\<open>%d\<close> has printed. Whether there is an instruction with this effect is
  the matter of the assembler, below.
\<close>

definition effect :: "instr \<Rightarrow> machine \<Rightarrow> machine option" where
  "effect i m =
     (case i of
        GLOBL s \<Rightarrow> Some m
      | LABEL s \<Rightarrow> Some m
      | MOV d v \<Rightarrow> Some (set_reg d (scast v) m)
      | STR_pre t \<Rightarrow> Some (m\<lparr>stack := regs m t # stack m\<rparr>)
      | LDR_post t \<Rightarrow>
          (case stack m of
             [] \<Rightarrow> None
           | w # ws \<Rightarrow> Some (set_reg t w (m\<lparr>stack := ws\<rparr>)))
      | ADD d n k \<Rightarrow> Some (set_reg d (regs m n + regs m k) m)
      | SUB d n k \<Rightarrow> Some (set_reg d (regs m n - regs m k) m)
      | MUL d n k \<Rightarrow> Some (set_reg d (regs m n * regs m k) m)
      | SDIV d n k \<Rightarrow> Some (set_reg d (sdiv64 (regs m n) (regs m k)) m)
      | CMP n k \<Rightarrow> Some (m\<lparr>nzcv := cmp_flags (regs m n) (regs m k)\<rparr>)
      | CSET d c \<Rightarrow> Some (set_reg d (if cond_holds c (nzcv m) then 1 else 0) m)
      | RET \<Rightarrow> None)"

text \<open>The effects of a sequence of lines, one after the other.\<close>

fun exec :: "instr list \<Rightarrow> machine \<Rightarrow> machine option" where
  "exec [] m = Some m"
| "exec (i # is) m = (case effect i m of None \<Rightarrow> None | Some m' \<Rightarrow> exec is m')"

text \<open>
  The assembler. \<^verbatim>\<open>mov xd, #imm\<close> is one instruction, and it exists for three kinds of
  64-bit values only: a 16-bit value shifted to the left by 0, 16, 32 or 48 bits
  (\<^verbatim>\<open>movz\<close>), the bitwise complement of such a value (\<^verbatim>\<open>movn\<close>), and a bitmask immediate
  (\<^verbatim>\<open>orr\<close> with the zero register). A bitmask immediate consists of equal elements of
  \<open>e\<close> bits, where \<open>e\<close> is 2, 4, 8, 16, 32 or 64, and the element is a run of \<open>k\<close> ones,
  \<open>0 < k < e\<close>, rotated within the element: \<open>rotated_run e k r\<close> is the run from bit \<open>r\<close>
  upwards, with the part that passes bit \<open>e - 1\<close> continued at bit 0. Values are given by
  their unsigned reading.
\<close>

definition wide_immediate :: "nat \<Rightarrow> bool" where
  "wide_immediate n \<longleftrightarrow> (\<exists>s \<in> {0, 16, 32, 48}. 2 ^ s dvd n \<and> n div 2 ^ s < 2 ^ 16)"

definition rotated_run :: "nat \<Rightarrow> nat \<Rightarrow> nat \<Rightarrow> nat" where
  "rotated_run e k r =
     (if k + r \<le> e then (2 ^ k - 1) * 2 ^ r
      else (2 ^ e - 2 ^ r) + (2 ^ (k + r - e) - 1))"

definition bitmask_immediate :: "nat \<Rightarrow> bool" where
  "bitmask_immediate n \<longleftrightarrow>
     (\<exists>e \<in> {2, 4, 8, 16, 32, 64}. \<exists>k \<in> {1..<e}. \<exists>r \<in> {0..<e}.
        n = rotated_run e k r * ((2 ^ 64 - 1) div (2 ^ e - 1)))"

definition mov_immediate :: "64 word \<Rightarrow> bool" where
  "mov_immediate w \<longleftrightarrow>
     wide_immediate (unat w) \<or> wide_immediate (2 ^ 64 - 1 - unat w) \<or> bitmask_immediate (unat w)"

text \<open>The other lines that the compiler prints have an encoding whatever their operands.\<close>

definition assembles :: "instr \<Rightarrow> bool" where
  "assembles i = (case i of MOV d v \<Rightarrow> mov_immediate (scast v) | _ \<Rightarrow> True)"

text \<open>
  One step of the machine: it executes the instruction that the assembler has made of the
  line, and a line that the assembler refuses is no instruction.
\<close>

definition step :: "instr \<Rightarrow> machine \<Rightarrow> machine option" where
  "step i m = (if assembles i then effect i m else None)"

text \<open>
  The lines of a function executed up to the first \<^verbatim>\<open>ret\<close>; the value returned is
  the content of \<^verbatim>\<open>x0\<close> there.
\<close>

fun run_lines :: "instr list \<Rightarrow> machine \<Rightarrow> 64 word option" where
  "run_lines [] m = None"
| "run_lines (i # is) m =
     (if i = RET then Some (regs m X0)
      else (case step i m of None \<Rightarrow> None | Some m' \<Rightarrow> run_lines is m'))"

text \<open>
  A call of the emitted function. The assembler translates the whole text or nothing:
  there is a function to call only when it has accepted every line.
\<close>

definition run :: "instr list \<Rightarrow> machine \<Rightarrow> 64 word option" where
  "run prog m = (if list_all assembles prog then run_lines prog m else None)"

section \<open>Notions of the specification\<close>

subsection \<open>Tokens and the scan of the lexer\<close>

text \<open>
  The text of a token is \<open>len\<close> bytes of the input from offset \<open>str\<close>; a token lies
  within the input when its text does not run past the end.
\<close>

definition lexeme :: "string \<Rightarrow> Token \<Rightarrow> string" where
  "lexeme inp t = take (len t) (drop (str t) inp)"

definition in_input :: "string \<Rightarrow> Token \<Rightarrow> bool" where
  "in_input inp t \<longleftrightarrow> str t + len t \<le> length inp"

text \<open>
  The scan of the specification, section 4.1: from offset 0, white space is skipped, a
  two-character operator is tried before a one-character operator, and a digit starts a
  number that extends over the whole run of digits. \<open>scan_step inp p p'\<close> says that the
  scan, at position \<open>p\<close>, moves on to \<open>p'\<close>; \<open>no_token_at inp p\<close> that the character at
  \<open>p\<close> is neither white space nor a digit and that no operator starts there.
\<close>

definition two_char_operators :: "string list" where
  "two_char_operators = [''=='', ''!='', ''<='', ''>='']"

definition one_char_operators :: "char list" where
  "one_char_operators = ''+-*/()<>''"

definition operator2_at :: "string \<Rightarrow> nat \<Rightarrow> bool" where
  "operator2_at inp p \<longleftrightarrow> take 2 (drop p inp) \<in> set two_char_operators"

definition operator1_at :: "string \<Rightarrow> nat \<Rightarrow> bool" where
  "operator1_at inp p \<longleftrightarrow> p < length inp \<and> inp ! p \<in> set one_char_operators"

definition no_token_at :: "string \<Rightarrow> nat \<Rightarrow> bool" where
  "no_token_at inp p \<longleftrightarrow>
     p < length inp \<and> \<not> isspace (inp ! p) \<and> \<not> isdigit (inp ! p) \<and>
     \<not> operator2_at inp p \<and> \<not> operator1_at inp p"

inductive scan_step :: "string \<Rightarrow> nat \<Rightarrow> nat \<Rightarrow> bool" for inp :: string where
  skip_space: "p < length inp \<Longrightarrow> isspace (inp ! p) \<Longrightarrow> scan_step inp p (p + 1)"
| operator2: "p < length inp \<Longrightarrow> \<not> isspace (inp ! p) \<Longrightarrow> operator2_at inp p \<Longrightarrow>
     scan_step inp p (p + 2)"
| operator1: "p < length inp \<Longrightarrow> \<not> isspace (inp ! p) \<Longrightarrow> \<not> operator2_at inp p \<Longrightarrow>
     operator1_at inp p \<Longrightarrow> scan_step inp p (p + 1)"
| number: "p < length inp \<Longrightarrow> \<not> isspace (inp ! p) \<Longrightarrow> \<not> operator2_at inp p \<Longrightarrow>
     \<not> operator1_at inp p \<Longrightarrow> isdigit (inp ! p) \<Longrightarrow>
     scan_step inp p (p + length (takeWhile isdigit (drop p inp)))"

definition scan_reaches :: "string \<Rightarrow> nat \<Rightarrow> bool" where
  "scan_reaches inp p \<longleftrightarrow> (scan_step inp)\<^sup>*\<^sup>* 0 p"

text \<open>
  The tokens of the specification, section 3, without the end-of-input token: an operator
  with its text, or a number with its run of digits. \<open>scan inp p\<close> is the lexer of
  section 4.1 from offset \<open>p\<close> on. It gives the symbols of the rest of the input in
  their order, each with the offset at which it starts, or else the offset of the first
  character that can start no token.
\<close>

datatype symbol = Operator string | Digits string

definition spelling :: "symbol \<Rightarrow> string" where
  "spelling s = (case s of Operator x \<Rightarrow> x | Digits ds \<Rightarrow> ds)"

definition emit :: "'a \<Rightarrow> nat + 'a list \<Rightarrow> nat + 'a list" where
  "emit x r = (case r of Inl q \<Rightarrow> Inl q | Inr xs \<Rightarrow> Inr (x # xs))"

function scan :: "string \<Rightarrow> nat \<Rightarrow> nat + (nat \<times> symbol) list" where
  "scan inp p =
     (if length inp \<le> p then Inr []
      else if isspace (inp ! p) then scan inp (p + 1)
      else if operator2_at inp p
      then emit (p, Operator (take 2 (drop p inp))) (scan inp (p + 2))
      else if operator1_at inp p
      then emit (p, Operator [inp ! p]) (scan inp (p + 1))
      else if isdigit (inp ! p)
      then emit (p, Digits (takeWhile isdigit (drop p inp)))
             (scan inp (p + length (takeWhile isdigit (drop p inp))))
      else Inl p)"
  by pat_completeness auto

termination
proof (relation "measure (\<lambda>(inp, p). length inp - p)")
  show "wf (measure (\<lambda>(inp, p). length inp - p))" by simp
next
  fix inp :: string and p :: nat
  assume p: "\<not> length inp \<le> p" and d: "isdigit (inp ! p)"
  from p have "drop p inp = inp ! p # drop (Suc p) inp"
    by (simp add: Cons_nth_drop_Suc)
  with d have "0 < length (takeWhile isdigit (drop p inp))" by simp
  with p have "length inp - (p + length (takeWhile isdigit (drop p inp))) < length inp - p"
    by linarith
  then show "((inp, p + length (takeWhile isdigit (drop p inp))), inp, p)
      \<in> measure (\<lambda>(inp, p). length inp - p)"
    by simp
qed auto

declare scan.simps [simp del]

text \<open>
  The token record of the C program for a symbol at an offset: a reserved token for an
  operator, a number token for a run of digits, with the value that \<^verbatim>\<open>strtol\<close> returns
  for the run stored in an \<^verbatim>\<open>int\<close>.
\<close>

definition record_of :: "nat \<times> symbol \<Rightarrow> Token" where
  "record_of s =
     (case s of
        (p, Operator x) \<Rightarrow> \<lparr>kind = TK_RESERVED, val = 0, str = p, len = length x\<rparr>
      | (p, Digits ds) \<Rightarrow>
          \<lparr>kind = TK_NUM, val = word_of_nat (min (decimal ds) LONG_MAX), str = p, len = length ds\<rparr>)"

text \<open>
  A symbol at its offset: the text of an operator stands there in the input, and the
  digits of a number are the whole run of digits that begins there.
\<close>

definition symbol_at :: "string \<Rightarrow> nat \<times> symbol \<Rightarrow> bool" where
  "symbol_at inp s =
     (case s of
        (p, Operator x) \<Rightarrow>
          take (length x) (drop p inp) = x \<and>
          (x \<in> set two_char_operators \<or> x \<in> set (map (\<lambda>c. [c]) one_char_operators))
      | (p, Digits ds) \<Rightarrow> ds = takeWhile isdigit (drop p inp) \<and> ds \<noteq> [])"

text \<open>A character with which the text of some operator begins.\<close>

definition starts_operator :: "char \<Rightarrow> bool" where
  "starts_operator c \<longleftrightarrow> c \<in> set one_char_operators \<or> c \<in> set (map hd two_char_operators)"

subsection \<open>The grammar\<close>

text \<open>
  An expression as it is written, before the parser rewrites it: a literal with the
  value of its digits, a signed operand, or one of the ten binary operators.
\<close>

datatype binop = Op_eq | Op_ne | Op_lt | Op_le | Op_gt | Op_ge | Op_add | Op_sub | Op_mul | Op_div

datatype sign = Positive | Negative

definition op_text :: "binop \<Rightarrow> string" where
  "op_text op =
     (case op of Op_eq \<Rightarrow> ''=='' | Op_ne \<Rightarrow> ''!='' | Op_lt \<Rightarrow> ''<'' | Op_le \<Rightarrow> ''<=''
      | Op_gt \<Rightarrow> ''>'' | Op_ge \<Rightarrow> ''>='' | Op_add \<Rightarrow> ''+'' | Op_sub \<Rightarrow> ''-''
      | Op_mul \<Rightarrow> ''*'' | Op_div \<Rightarrow> ''/'')"

definition sign_text :: "sign \<Rightarrow> string" where
  "sign_text s = (case s of Positive \<Rightarrow> ''+'' | Negative \<Rightarrow> ''-'')"

datatype sexpr = Number nat | Sign sign sexpr | Binary binop sexpr sexpr

datatype rule = Expr | Equality | Relational | Add | Mul | Unary | Primary

text \<open>
  The grammar of the specification, section 4.2, over the symbols of the input.
  \<open>parses r ss e\<close> says that the symbols \<open>ss\<close> are an instance of the rule \<open>r\<close> and
  that \<open>e\<close> is the expression they write down. The operators of one level group to the
  left: the left operand of an operator is again an instance of the rule of that level,
  the right operand an instance of the next rule.
\<close>

inductive parses :: "rule \<Rightarrow> symbol list \<Rightarrow> sexpr \<Rightarrow> bool" where
  expr: "parses Equality ss e \<Longrightarrow> parses Expr ss e"
| equality_operand: "parses Relational ss e \<Longrightarrow> parses Equality ss e"
| equality_operator:
    "parses Equality ss a \<Longrightarrow> op \<in> {Op_eq, Op_ne} \<Longrightarrow> parses Relational us b \<Longrightarrow>
     parses Equality (ss @ Operator (op_text op) # us) (Binary op a b)"
| relational_operand: "parses Add ss e \<Longrightarrow> parses Relational ss e"
| relational_operator:
    "parses Relational ss a \<Longrightarrow> op \<in> {Op_lt, Op_le, Op_gt, Op_ge} \<Longrightarrow> parses Add us b \<Longrightarrow>
     parses Relational (ss @ Operator (op_text op) # us) (Binary op a b)"
| add_operand: "parses Mul ss e \<Longrightarrow> parses Add ss e"
| add_operator:
    "parses Add ss a \<Longrightarrow> op \<in> {Op_add, Op_sub} \<Longrightarrow> parses Mul us b \<Longrightarrow>
     parses Add (ss @ Operator (op_text op) # us) (Binary op a b)"
| mul_operand: "parses Unary ss e \<Longrightarrow> parses Mul ss e"
| mul_operator:
    "parses Mul ss a \<Longrightarrow> op \<in> {Op_mul, Op_div} \<Longrightarrow> parses Unary us b \<Longrightarrow>
     parses Mul (ss @ Operator (op_text op) # us) (Binary op a b)"
| unary_plain: "parses Primary ss e \<Longrightarrow> parses Unary ss e"
| unary_sign: "parses Primary ss e \<Longrightarrow> parses Unary (Operator (sign_text s) # ss) (Sign s e)"
| primary_number: "parses Primary [Digits ds] (Number (decimal ds))"
| primary_paren:
    "parses Expr ss e \<Longrightarrow> parses Primary (Operator ''('' # ss @ [Operator '')'']) e"

text \<open>
\<open>is_op inp t op\<close>: the token \<open>t\<close> is the operator \<open>op\<close>, by the test of \<^verbatim>\<open>consume\<close>.
\<close>

definition is_op :: "string \<Rightarrow> Token \<Rightarrow> string \<Rightarrow> bool" where
  "is_op inp t op \<longleftrightarrow> \<not> mismatch inp t op"

text \<open>
  The same grammar over the token records of the C program, for a cursor that stands
  somewhere in a token list. \<open>derives inp r ts e\<close> says that the tokens \<open>ts\<close> are an
  instance of the rule \<open>r\<close> and that \<open>e\<close> is the expression they write down.
\<close>

inductive derives :: "string \<Rightarrow> rule \<Rightarrow> Token list \<Rightarrow> sexpr \<Rightarrow> bool" for inp :: string where
  expr: "derives inp Equality ts e \<Longrightarrow> derives inp Expr ts e"
| equality_operand: "derives inp Relational ts e \<Longrightarrow> derives inp Equality ts e"
| equality_operator:
    "derives inp Equality ts a \<Longrightarrow> is_op inp t (op_text op) \<Longrightarrow> op \<in> {Op_eq, Op_ne} \<Longrightarrow>
     derives inp Relational us b \<Longrightarrow> derives inp Equality (ts @ t # us) (Binary op a b)"
| relational_operand: "derives inp Add ts e \<Longrightarrow> derives inp Relational ts e"
| relational_operator:
    "derives inp Relational ts a \<Longrightarrow> is_op inp t (op_text op) \<Longrightarrow> op \<in> {Op_lt, Op_le, Op_gt, Op_ge} \<Longrightarrow>
     derives inp Add us b \<Longrightarrow> derives inp Relational (ts @ t # us) (Binary op a b)"
| add_operand: "derives inp Mul ts e \<Longrightarrow> derives inp Add ts e"
| add_operator:
    "derives inp Add ts a \<Longrightarrow> is_op inp t (op_text op) \<Longrightarrow> op \<in> {Op_add, Op_sub} \<Longrightarrow>
     derives inp Mul us b \<Longrightarrow> derives inp Add (ts @ t # us) (Binary op a b)"
| mul_operand: "derives inp Unary ts e \<Longrightarrow> derives inp Mul ts e"
| mul_operator:
    "derives inp Mul ts a \<Longrightarrow> is_op inp t (op_text op) \<Longrightarrow> op \<in> {Op_mul, Op_div} \<Longrightarrow>
     derives inp Unary us b \<Longrightarrow> derives inp Mul (ts @ t # us) (Binary op a b)"
| unary_plain: "derives inp Primary ts e \<Longrightarrow> derives inp Unary ts e"
| unary_sign:
    "is_op inp t (sign_text s) \<Longrightarrow> derives inp Primary ts e \<Longrightarrow>
     derives inp Unary (t # ts) (Sign s e)"
| primary_number: "kind t = TK_NUM \<Longrightarrow> derives inp Primary [t] (Number (decimal (lexeme inp t)))"
| primary_paren:
    "is_op inp l ''('' \<Longrightarrow> derives inp Expr ts e \<Longrightarrow> is_op inp r '')'' \<Longrightarrow>
     derives inp Primary (l # ts @ [r]) e"

text \<open>
The operators that continue an expression.
\<close>

definition binary_operators :: "string set" where
  "binary_operators = {''=='', ''!='', ''<'', ''<='', ''>'', ''>='', ''+'', ''-'', ''*'', ''/''}"

text \<open>
  The tree of the specification for an expression: a literal is a number node with the
  value that the lexer stores for it, unary minus is the subtraction from the number 0,
  and \<^verbatim>\<open>a > b\<close>, \<^verbatim>\<open>a >= b\<close> are the nodes of \<^verbatim>\<open>b < a\<close>, \<^verbatim>\<open>b <= a\<close>.
\<close>

definition literal :: "nat \<Rightarrow> 32 word" where
  "literal d = word_of_nat (min d LONG_MAX)"

definition binary_node :: "binop \<Rightarrow> Node \<Rightarrow> Node \<Rightarrow> Node" where
  "binary_node op a b =
     (case op of
        Op_eq \<Rightarrow> new_binary ND_EQ a b
      | Op_ne \<Rightarrow> new_binary ND_NE a b
      | Op_lt \<Rightarrow> new_binary ND_LT a b
      | Op_le \<Rightarrow> new_binary ND_LE a b
      | Op_gt \<Rightarrow> new_binary ND_LT b a
      | Op_ge \<Rightarrow> new_binary ND_LE b a
      | Op_add \<Rightarrow> new_binary ND_ADD a b
      | Op_sub \<Rightarrow> new_binary ND_SUB a b
      | Op_mul \<Rightarrow> new_binary ND_MUL a b
      | Op_div \<Rightarrow> new_binary ND_DIV a b)"

fun norm :: "sexpr \<Rightarrow> Node" where
  "norm (Number d) = new_num (literal d)"
| "norm (Sign s e) =
     (case s of Positive \<Rightarrow> norm e | Negative \<Rightarrow> new_binary ND_SUB (new_num 0) (norm e))"
| "norm (Binary op a b) = binary_node op (norm a) (norm b)"

text \<open>
  A token record stands for a symbol when it passes the test of \<^verbatim>\<open>consume\<close> for the
  text of the operator, or is a number token whose text is the run of digits.
\<close>

definition spelled :: "string \<Rightarrow> Token \<Rightarrow> symbol \<Rightarrow> bool" where
  "spelled inp t s =
     (case s of
        Operator x \<Rightarrow> is_op inp t x
      | Digits ds \<Rightarrow> kind t = TK_NUM \<and> lexeme inp t = ds)"

text \<open>
A number token is as the lexer makes it when its value is that of its text.
\<close>

definition lexed :: "string \<Rightarrow> Token \<Rightarrow> bool" where
  "lexed inp t \<longleftrightarrow> (kind t = TK_NUM \<longrightarrow> val t = literal (decimal (lexeme inp t)))"

subsection \<open>Evaluation of an expression\<close>

text \<open>
  The value of an expression over the integers: division rounds towards zero, and a
  comparison is 1 or 0. There is no value when a literal is not below \<open>2 ^ 31\<close>, when
  a divisor is 0 or when an intermediate result leaves the range of a signed 64-bit
  register.
\<close>

definition fits64 :: "int \<Rightarrow> bool" where
  "fits64 v \<longleftrightarrow> - (2 ^ 63) \<le> v \<and> v < 2 ^ 63"

definition checked :: "int \<Rightarrow> int option" where
  "checked v = (if fits64 v then Some v else None)"

definition apply_op :: "binop \<Rightarrow> int \<Rightarrow> int \<Rightarrow> int option" where
  "apply_op op x y =
     (case op of
        Op_add \<Rightarrow> checked (x + y)
      | Op_sub \<Rightarrow> checked (x - y)
      | Op_mul \<Rightarrow> checked (x * y)
      | Op_div \<Rightarrow> (if y = 0 then None else checked (x sdiv y))
      | Op_eq \<Rightarrow> Some (if x = y then 1 else 0)
      | Op_ne \<Rightarrow> Some (if x \<noteq> y then 1 else 0)
      | Op_lt \<Rightarrow> Some (if x < y then 1 else 0)
      | Op_le \<Rightarrow> Some (if x \<le> y then 1 else 0)
      | Op_gt \<Rightarrow> Some (if x > y then 1 else 0)
      | Op_ge \<Rightarrow> Some (if x \<ge> y then 1 else 0))"

fun seval :: "sexpr \<Rightarrow> int option" where
  "seval (Number d) = (if d < 2 ^ 31 then Some (int d) else None)"
| "seval (Sign s e) =
     (case seval e of
        None \<Rightarrow> None
      | Some v \<Rightarrow> (case s of Positive \<Rightarrow> Some v | Negative \<Rightarrow> checked (- v)))"
| "seval (Binary op a b) =
     (case seval a of
        None \<Rightarrow> None
      | Some x \<Rightarrow> (case seval b of None \<Rightarrow> None | Some y \<Rightarrow> apply_op op x y))"

text \<open>
  The literals of an expression can be loaded when each of them is a value for which the
  target has a \<^verbatim>\<open>mov\<close> instruction.
\<close>

fun loadable :: "sexpr \<Rightarrow> bool" where
  "loadable (Number d) = mov_immediate (word_of_nat d)"
| "loadable (Sign s e) = loadable e"
| "loadable (Binary op a b) = (loadable a \<and> loadable b)"

subsection \<open>Trees and emitted code\<close>

text \<open>
  A tree is well formed when its \<^verbatim>\<open>ND_NUM\<close> nodes are leaves and every other node has
  two children, which are well formed.
\<close>

fun wf_node :: "Node \<Rightarrow> bool" where
  "wf_node (Node k l r v) =
     (if k = ND_NUM then l = None \<and> r = None
      else (case l of None \<Rightarrow> False | Some a \<Rightarrow> wf_node a) \<and>
           (case r of None \<Rightarrow> False | Some b \<Rightarrow> wf_node b))"

text \<open>
  The value that the machine computes for a tree: a number is the sign-extended 32-bit
  field, and an operator works on the 64-bit values of the two children.
\<close>

definition binop_value :: "NodeKind \<Rightarrow> 64 word \<Rightarrow> 64 word \<Rightarrow> 64 word" where
  "binop_value k a b =
     (case k of
        ND_ADD \<Rightarrow> a + b
      | ND_SUB \<Rightarrow> a - b
      | ND_MUL \<Rightarrow> a * b
      | ND_DIV \<Rightarrow> sdiv64 a b
      | ND_EQ \<Rightarrow> of_bool (a = b)
      | ND_NE \<Rightarrow> of_bool (a \<noteq> b)
      | ND_LT \<Rightarrow> of_bool (sint a < sint b)
      | ND_LE \<Rightarrow> of_bool (sint a \<le> sint b)
      | ND_NUM \<Rightarrow> 0)"

fun node_value :: "Node \<Rightarrow> 64 word" where
  "node_value (Node k l r v) =
     (if k = ND_NUM then scast v
      else binop_value k (case l of None \<Rightarrow> 0 | Some a \<Rightarrow> node_value a)
                         (case r of None \<Rightarrow> 0 | Some b \<Rightarrow> node_value b))"

text \<open>
The pushes and pops among the lines of a piece of code.
\<close>

fun is_push :: "instr \<Rightarrow> bool" where
  "is_push (STR_pre r) = True"
| "is_push i = False"

fun is_pop :: "instr \<Rightarrow> bool" where
  "is_pop (LDR_post r) = True"
| "is_pop i = False"

definition pushes :: "instr list \<Rightarrow> nat" where
  "pushes code = length (filter is_push code)"

definition pops :: "instr list \<Rightarrow> nat" where
  "pops code = length (filter is_pop code)"

text \<open>
  \<open>returns arg v\<close>: the program compiles \<open>arg\<close>, the assembler accepts the lines it
  prints, and the emitted function, called in any machine state, returns \<open>v\<close> in \<^verbatim>\<open>x0\<close>,
  read as a signed number.
\<close>

definition returns :: "string \<Rightarrow> int \<Rightarrow> bool" where
  "returns arg v \<longleftrightarrow>
     (\<exists>prog. compile arg = Inr prog \<and> (\<forall>m. \<exists>w. run prog m = Some w \<and> sint w = v))"

text \<open>
A choice for the byte that \<^verbatim>\<open>expect\<close> prints, where an example needs one.
\<close>

definition question_mark :: "string \<Rightarrow> char" where
  "question_mark op = CHR ''?''"

section \<open>Evaluating the model on a given input\<close>

lemma bind_weak_cong: "m = m' \<Longrightarrow> bind m f = bind m' f"
  by simp

lemmas lexer_defs = tokenize_def tokenize_loop.simps isspace_def startswith_def memcmp_def
  isdigit_def strtol_def decimal_def digit_val_def LONG_MAX_def link_def new_token_def

lemmas scan_defs = scan.simps emit_def operator2_at_def operator1_at_def two_char_operators_def
  one_char_operators_def isspace_def isdigit_def

lemmas parser_simps = expr.simps equality.simps equality_loop.simps relational.simps
  relational_loop.simps add.simps add_loop.simps mul.simps mul_loop.simps unary.simps primary.simps

lemmas cursor_defs = consume_def expect_def expect_number_def mismatch_def memcmp_def
  new_binary_def new_node_def new_num_def

lemmas machine_defs = gen_op_def effect_def step_def set_reg_def sdiv64_def cmp_flags_def cond_holds_def

section \<open>The token cursor\<close>

lemma length_lexeme: "in_input inp t \<Longrightarrow> length (lexeme inp t) = len t"
  by (auto simp: in_input_def lexeme_def)

lemma mismatch_iff:
  "in_input inp t \<Longrightarrow> mismatch inp t op \<longleftrightarrow> \<not> (kind t = TK_RESERVED \<and> lexeme inp t = op)"
  using length_lexeme [of inp t]
  by (auto simp: mismatch_def memcmp_def lexeme_def)

text \<open>
  Claim C10. With the cursor on a token \<open>t\<close> that lies within the input, \<^verbatim>\<open>consume(op)\<close>
  returns. It returns true exactly when \<open>t\<close> is a reserved token whose text is \<open>op\<close>, and
  then the cursor has moved to the next token and nothing else has changed. When it returns
  false the global state is the one before the call.
\<close>

theorem consume_frame:
  assumes "token g = t # nxt" and "in_input (user_input g) t"
  shows "\<exists>b g'. consume op g = Inr (b, g') \<and>
           (b \<longleftrightarrow> kind t = TK_RESERVED \<and> lexeme (user_input g) t = op) \<and>
           (b \<longrightarrow> g' = g\<lparr>token := nxt\<rparr>) \<and>
           (\<not> b \<longrightarrow> g' = g)"
  using assms by (auto simp: consume_def mismatch_iff)

theorem consume_frame_witness:
  "\<exists>b g'. consume ''+'' \<lparr>user_input = ''+1'',
               token = [new_token TK_RESERVED 0 1, new_token TK_EOF 2 0]\<rparr> = Inr (b, g') \<and>
     b \<and> g' = \<lparr>user_input = ''+1'', token = [new_token TK_EOF 2 0]\<rparr>"
  using consume_frame [of "\<lparr>user_input = ''+1'',
      token = [new_token TK_RESERVED 0 1, new_token TK_EOF 2 0]\<rparr>"
      "new_token TK_RESERVED 0 1" "[new_token TK_EOF 2 0]" "''+''"]
  by (auto simp: in_input_def new_token_def lexeme_def)

section \<open>The tokenizer\<close>

lemma operator2_at_iff:
  "operator2_at inp p \<longleftrightarrow>
     startswith (drop p inp) ''=='' \<or> startswith (drop p inp) ''!='' \<or>
     startswith (drop p inp) ''<='' \<or> startswith (drop p inp) ''>=''"
  by (simp add: operator2_at_def two_char_operators_def startswith_def memcmp_def numeral_2_eq_2)

lemma startswith_length: "startswith s q \<Longrightarrow> length q \<le> length s"
proof -
  assume "startswith s q"
  then have "take (length q) s = q" by (simp add: startswith_def memcmp_def)
  then have "length (take (length q) s) = length q" by simp
  then show ?thesis by simp
qed

lemma operator2_at_length: "operator2_at inp p \<Longrightarrow> p + 2 \<le> length inp"
  using startswith_length [of "drop p inp"] by (fastforce simp: operator2_at_iff)

lemma drop_nth: "p < length inp \<Longrightarrow> drop p inp = inp ! p # drop (Suc p) inp"
  by (simp add: Cons_nth_drop_Suc)

lemma takeWhile_digits_pos:
  "p < length inp \<Longrightarrow> isdigit (inp ! p) \<Longrightarrow> 0 < length (takeWhile isdigit (drop p inp))"
  by (simp add: drop_nth)

lemma takeWhile_digits_le: "p + length (takeWhile isdigit (drop p inp)) \<le> length inp \<or> length inp < p"
  using length_takeWhile_le [of isdigit "drop p inp"] by auto

lemma link_Inl: "link t r = Inl e \<longleftrightarrow> r = Inl e"
  by (cases r) (simp_all add: link_def)

lemma link_Inr: "link t r = Inr ts \<longleftrightarrow> (\<exists>rest. r = Inr rest \<and> ts = t # rest)"
  by (cases r) (auto simp: link_def)

text \<open>
One step of the scan, as the loop takes it.
\<close>

lemma tokenize_loop_space:
  "p < length inp \<Longrightarrow> isspace (inp ! p) \<Longrightarrow> tokenize_loop inp p = tokenize_loop inp (p + 1)"
  by (subst tokenize_loop.simps) simp

lemma tokenize_loop_operator2:
  "p < length inp \<Longrightarrow> \<not> isspace (inp ! p) \<Longrightarrow> operator2_at inp p \<Longrightarrow>
   tokenize_loop inp p = link (new_token TK_RESERVED p 2) (tokenize_loop inp (p + 2))"
  by (subst tokenize_loop.simps) (simp add: operator2_at_iff)

lemma tokenize_loop_operator1:
  "p < length inp \<Longrightarrow> \<not> isspace (inp ! p) \<Longrightarrow> \<not> operator2_at inp p \<Longrightarrow> operator1_at inp p \<Longrightarrow>
   tokenize_loop inp p = link (new_token TK_RESERVED p 1) (tokenize_loop inp (p + 1))"
  by (subst tokenize_loop.simps) (simp add: operator2_at_iff operator1_at_def one_char_operators_def)

lemma tokenize_loop_number:
  "p < length inp \<Longrightarrow> \<not> isspace (inp ! p) \<Longrightarrow> \<not> operator2_at inp p \<Longrightarrow> \<not> operator1_at inp p \<Longrightarrow>
   isdigit (inp ! p) \<Longrightarrow>
   tokenize_loop inp p =
     link \<lparr>kind = TK_NUM,
           val = word_of_nat (min (decimal (takeWhile isdigit (drop p inp))) LONG_MAX),
           str = p, len = length (takeWhile isdigit (drop p inp))\<rparr>
       (tokenize_loop inp (p + length (takeWhile isdigit (drop p inp))))"
  by (subst tokenize_loop.simps)
     (simp add: operator2_at_iff operator1_at_def one_char_operators_def strtol_def new_token_def Let_def)

lemma tokenize_loop_bad:
  "no_token_at inp p \<Longrightarrow> tokenize_loop inp p = Inl (Error_at p Cannot_tokenize)"
  by (subst tokenize_loop.simps)
     (simp add: no_token_at_def operator2_at_iff operator1_at_def one_char_operators_def)

lemma tokenize_loop_end:
  "length inp \<le> p \<Longrightarrow> tokenize_loop inp p = Inr [new_token TK_EOF p 0]"
  by (subst tokenize_loop.simps) simp

text \<open>
At a position inside the input exactly one of the five cases applies.
\<close>

lemma scan_cases:
  assumes "p < length inp"
  obtains (space) "isspace (inp ! p)"
  | (op2) "\<not> isspace (inp ! p)" "operator2_at inp p"
  | (op1) "\<not> isspace (inp ! p)" "\<not> operator2_at inp p" "operator1_at inp p"
  | (num) "\<not> isspace (inp ! p)" "\<not> operator2_at inp p" "\<not> operator1_at inp p" "isdigit (inp ! p)"
  | (bad) "no_token_at inp p"
  using assms unfolding no_token_at_def by blast

lemma scan_step_advances: "scan_step inp p p' \<Longrightarrow> p < p' \<and> p' \<le> length inp"
proof (induction rule: scan_step.induct)
  case (operator2 p)
  then show ?case using operator2_at_length [of inp p] by simp
next
  case (number p)
  then show ?case
    using takeWhile_digits_pos [of p inp] takeWhile_digits_le [of p inp] by simp
qed simp_all

lemma scan_step_error:
  "scan_step inp p p' \<Longrightarrow> tokenize_loop inp p = Inl e \<longleftrightarrow> tokenize_loop inp p' = Inl e"
  by (induction rule: scan_step.induct)
     (simp_all add: tokenize_loop_space tokenize_loop_operator2 tokenize_loop_operator1
        tokenize_loop_number link_Inl)

lemma scan_steps_error:
  "(scan_step inp)\<^sup>*\<^sup>* p q \<Longrightarrow> tokenize_loop inp p = Inl e \<longleftrightarrow> tokenize_loop inp q = Inl e"
  by (induction rule: rtranclp_induct) (simp_all add: scan_step_error)

lemma tokenize_loop_error:
  "tokenize_loop inp p = Inl e \<Longrightarrow>
     \<exists>q. (scan_step inp)\<^sup>*\<^sup>* p q \<and> no_token_at inp q \<and> e = Error_at q Cannot_tokenize"
proof (induction "length inp - p" arbitrary: p rule: less_induct)
  case less
  show ?case
  proof (cases "p < length inp")
    case False
    with less.prems show ?thesis by (simp add: tokenize_loop_end)
  next
    case True
    have step: "\<exists>q. (scan_step inp)\<^sup>*\<^sup>* p q \<and> no_token_at inp q \<and> e = Error_at q Cannot_tokenize"
      if s: "scan_step inp p p'" for p'
    proof -
      from s less.prems have "tokenize_loop inp p' = Inl e" by (simp add: scan_step_error)
      moreover from scan_step_advances [OF s] True have "length inp - p' < length inp - p" by linarith
      ultimately obtain q where "(scan_step inp)\<^sup>*\<^sup>* p' q" "no_token_at inp q"
        "e = Error_at q Cannot_tokenize"
        using less.hyps by blast
      with s show ?thesis by (blast intro: converse_rtranclp_into_rtranclp)
    qed
    from True show ?thesis
    proof (cases rule: scan_cases)
      case space
      with True show ?thesis by (intro step [of "p + 1"] scan_step.skip_space)
    next
      case op2
      with True show ?thesis by (intro step [of "p + 2"] scan_step.operator2)
    next
      case op1
      with True show ?thesis by (intro step [of "p + 1"] scan_step.operator1)
    next
      case num
      with True have "scan_step inp p (p + length (takeWhile isdigit (drop p inp)))"
        by (intro scan_step.number)
      then show ?thesis by (rule step)
    next
      case bad
      with less.prems show ?thesis by (auto simp: tokenize_loop_bad)
    qed
  qed
qed

lemma isdigit_not_other:
  "isdigit c \<Longrightarrow> \<not> isspace c \<and> c \<notin> set one_char_operators \<and> c \<notin> set ''=!<>''"
  by (auto simp: isdigit_def isspace_def one_char_operators_def)

lemma operator2_at_first:
  "operator2_at inp p \<Longrightarrow> p < length inp \<and> inp ! p \<in> set ''=!<>''"
proof -
  assume a: "operator2_at inp p"
  from operator2_at_length [OF a] have p: "p < length inp" by simp
  from a p show ?thesis
    by (auto simp: operator2_at_def two_char_operators_def drop_nth)
qed

lemma operator2_not_space: "operator2_at inp p \<Longrightarrow> \<not> isspace (inp ! p)"
  using operator2_at_first [of inp p] by (auto simp: isspace_def)

lemma digit_not_operator:
  "p < length inp \<Longrightarrow> isdigit (inp ! p) \<Longrightarrow> \<not> operator2_at inp p \<and> \<not> operator1_at inp p"
  using operator2_at_first [of inp p] isdigit_not_other [of "inp ! p"]
  by (auto simp: operator1_at_def)

lemma takeWhile_stops:
  "p + length (takeWhile P (drop p inp)) < length inp \<Longrightarrow>
     \<not> P (inp ! (p + length (takeWhile P (drop p inp))))"
  using nth_length_takeWhile [of P "drop p inp"] by (simp add: add.commute)

text \<open>
The lexer of the specification, step by step.
\<close>

lemma scan_end: "length inp \<le> p \<Longrightarrow> scan inp p = Inr []"
  by (subst scan.simps) simp

lemma scan_space: "p < length inp \<Longrightarrow> isspace (inp ! p) \<Longrightarrow> scan inp p = scan inp (p + 1)"
  by (subst scan.simps) simp

lemma scan_operator2:
  "p < length inp \<Longrightarrow> \<not> isspace (inp ! p) \<Longrightarrow> operator2_at inp p \<Longrightarrow>
   scan inp p = emit (p, Operator (take 2 (drop p inp))) (scan inp (p + 2))"
  by (subst scan.simps) simp

lemma scan_operator1:
  "p < length inp \<Longrightarrow> \<not> isspace (inp ! p) \<Longrightarrow> \<not> operator2_at inp p \<Longrightarrow> operator1_at inp p \<Longrightarrow>
   scan inp p = emit (p, Operator [inp ! p]) (scan inp (p + 1))"
  by (subst scan.simps) simp

lemma scan_number:
  "p < length inp \<Longrightarrow> \<not> isspace (inp ! p) \<Longrightarrow> \<not> operator2_at inp p \<Longrightarrow> \<not> operator1_at inp p \<Longrightarrow>
   isdigit (inp ! p) \<Longrightarrow>
   scan inp p =
     emit (p, Digits (takeWhile isdigit (drop p inp)))
       (scan inp (p + length (takeWhile isdigit (drop p inp))))"
  by (subst scan.simps) simp

lemma scan_bad: "no_token_at inp p \<Longrightarrow> scan inp p = Inl p"
  by (subst scan.simps) (simp add: no_token_at_def)

lemma emit_Inr: "emit x r = Inr xs \<longleftrightarrow> (\<exists>rest. r = Inr rest \<and> xs = x # rest)"
  by (cases r) (auto simp: emit_def)

text \<open>
The loop of the C program computes the lexer of the specification, in its own records.
\<close>

lemma tokenize_loop_scan:
  "p \<le> length inp \<Longrightarrow>
   tokenize_loop inp p =
     (case scan inp p of
        Inl q \<Rightarrow> Inl (Error_at q Cannot_tokenize)
      | Inr syms \<Rightarrow>
          Inr (map record_of syms @ [\<lparr>kind = TK_EOF, val = 0, str = length inp, len = 0\<rparr>]))"
proof (induction "length inp - p" arbitrary: p rule: less_induct)
  case less
  show ?case
  proof (cases "p < length inp")
    case False
    with less.prems show ?thesis by (simp add: tokenize_loop_end scan_end new_token_def)
  next
    case True
    have IH: "tokenize_loop inp p' =
        (case scan inp p' of
           Inl q \<Rightarrow> Inl (Error_at q Cannot_tokenize)
         | Inr syms \<Rightarrow>
             Inr (map record_of syms @ [\<lparr>kind = TK_EOF, val = 0, str = length inp, len = 0\<rparr>]))"
      if "scan_step inp p p'" for p'
    proof -
      from scan_step_advances [OF that] True have "length inp - p' < length inp - p" "p' \<le> length inp"
        by linarith+
      then show ?thesis by (rule less.hyps)
    qed
    from True show ?thesis
    proof (cases rule: scan_cases)
      case space
      with True have "scan_step inp p (p + 1)" by (rule scan_step.skip_space)
      note c = IH [OF this]
      from True space have a: "tokenize_loop inp p = tokenize_loop inp (p + 1)"
        by (rule tokenize_loop_space)
      from True space have b: "scan inp p = scan inp (p + 1)"
        by (rule scan_space)
      show ?thesis unfolding a b by (rule c)
    next
      case op2
      with True have "scan_step inp p (p + 2)" by (intro scan_step.operator2)
      note c = IH [OF this]
      from True op2 have a: "tokenize_loop inp p =
          link (new_token TK_RESERVED p 2) (tokenize_loop inp (p + 2))"
        by (rule tokenize_loop_operator2)
      from True op2 have b: "scan inp p =
          emit (p, Operator (take 2 (drop p inp))) (scan inp (p + 2))"
        by (rule scan_operator2)
      from operator2_at_length [OF op2(2)] have "length (take 2 (drop p inp)) = 2" by simp
      then show ?thesis unfolding a b c
        by (simp add: link_def emit_def record_of_def new_token_def split: sum.splits)
    next
      case op1
      with True have "scan_step inp p (p + 1)" by (intro scan_step.operator1)
      note c = IH [OF this]
      from True op1 have a: "tokenize_loop inp p =
          link (new_token TK_RESERVED p 1) (tokenize_loop inp (p + 1))"
        by (rule tokenize_loop_operator1)
      from True op1 have b: "scan inp p = emit (p, Operator [inp ! p]) (scan inp (p + 1))"
        by (rule scan_operator1)
      show ?thesis unfolding a b c
        by (simp add: link_def emit_def record_of_def new_token_def split: sum.splits)
    next
      case num
      let ?ds = "takeWhile isdigit (drop p inp)"
      from num True have "scan_step inp p (p + length ?ds)"
        by (intro scan_step.number)
      note c = IH [OF this]
      from True num have a: "tokenize_loop inp p =
          link \<lparr>kind = TK_NUM, val = word_of_nat (min (decimal ?ds) LONG_MAX),
                str = p, len = length ?ds\<rparr>
            (tokenize_loop inp (p + length ?ds))"
        by (rule tokenize_loop_number)
      from True num have b: "scan inp p = emit (p, Digits ?ds) (scan inp (p + length ?ds))"
        by (rule scan_number)
      show ?thesis unfolding a b c
        by (simp add: link_def emit_def record_of_def split: sum.splits)
    next
      case bad
      then show ?thesis by (simp add: tokenize_loop_bad scan_bad)
    qed
  qed
qed

text \<open>
  Every symbol of the result is an operator or the whole run of digits at its offset, and
  the symbols together are the input without its white space.
\<close>

lemma two_char_no_space:
  assumes "x \<in> set two_char_operators"
  shows "filter (\<lambda>c. \<not> isspace c) x = x"
proof -
  from assms have "x = ''=='' \<or> x = ''!='' \<or> x = ''<='' \<or> x = ''>=''"
    by (simp add: two_char_operators_def)
  then show ?thesis by (elim disjE) (simp_all add: isspace_def)
qed

lemma scan_symbols:
  "scan inp p = Inr syms \<Longrightarrow>
   list_all (symbol_at inp) syms \<and>
   concat (map (spelling \<circ> snd) syms) = filter (\<lambda>c. \<not> isspace c) (drop p inp)"
proof (induction "length inp - p" arbitrary: p syms rule: less_induct)
  case less
  show ?case
  proof (cases "p < length inp")
    case False
    with less.prems show ?thesis by (simp add: scan_end)
  next
    case True
    have IH: "list_all (symbol_at inp) rest \<and>
        concat (map (spelling \<circ> snd) rest) = filter (\<lambda>c. \<not> isspace c) (drop p' inp)"
      if "scan_step inp p p'" "scan inp p' = Inr rest" for p' rest
    proof -
      from scan_step_advances [OF that(1)] True have "length inp - p' < length inp - p"
        by linarith
      then show ?thesis using that(2) by (rule less.hyps)
    qed
    from True show ?thesis
    proof (cases rule: scan_cases)
      case space
      with True have s: "scan_step inp p (p + 1)" by (rule scan_step.skip_space)
      from space True less.prems have "scan inp (p + 1) = Inr syms" by (simp add: scan_space)
      from IH [OF s this] space True show ?thesis by (simp add: drop_nth)
    next
      case op2
      let ?x = "take 2 (drop p inp)"
      from op2 True have s: "scan_step inp p (p + 2)" by (intro scan_step.operator2)
      from op2 True less.prems obtain rest where r: "scan inp (p + 2) = Inr rest"
        and syms: "syms = (p, Operator ?x) # rest"
        by (auto simp: scan_operator2 emit_Inr)
      from operator2_at_length [OF op2(2)] have l: "length ?x = 2" by simp
      from op2(2) have x: "?x \<in> set two_char_operators" by (simp add: operator2_at_def)
      then have f: "filter (\<lambda>c. \<not> isspace c) ?x = ?x"
        by (rule two_char_no_space)
      have "drop p inp = ?x @ drop 2 (drop p inp)"
        by (rule append_take_drop_id [symmetric])
      also have "drop 2 (drop p inp) = drop (p + 2) inp"
        by (simp only: drop_drop add.commute)
      finally have "filter (\<lambda>c. \<not> isspace c) (drop p inp) =
          filter (\<lambda>c. \<not> isspace c) (?x @ drop (p + 2) inp)"
        by (rule arg_cong)
      then have "filter (\<lambda>c. \<not> isspace c) (drop p inp) =
          ?x @ filter (\<lambda>c. \<not> isspace c) (drop (p + 2) inp)"
        by (simp only: filter_append f)
      moreover from l x have "symbol_at inp (p, Operator ?x)" by (simp add: symbol_at_def)
      ultimately show ?thesis using IH [OF s r] syms by (simp add: spelling_def)
    next
      case op1
      from op1 True have s: "scan_step inp p (p + 1)" by (intro scan_step.operator1)
      from op1 True less.prems obtain rest where r: "scan inp (p + 1) = Inr rest"
        and syms: "syms = (p, Operator [inp ! p]) # rest"
        by (auto simp: scan_operator1 emit_Inr)
      from op1(3) True have "symbol_at inp (p, Operator [inp ! p])"
        by (simp add: symbol_at_def operator1_at_def drop_nth)
      with IH [OF s r] syms op1(1) True show ?thesis by (simp add: spelling_def drop_nth)
    next
      case num
      let ?ds = "takeWhile isdigit (drop p inp)"
      from num True have s: "scan_step inp p (p + length ?ds)" by (intro scan_step.number)
      from num True less.prems obtain rest where r: "scan inp (p + length ?ds) = Inr rest"
        and syms: "syms = (p, Digits ?ds) # rest"
        by (auto simp: scan_number emit_Inr)
      have "\<forall>c \<in> set ?ds. \<not> isspace c"
        using isdigit_not_other by (auto dest: set_takeWhileD)
      then have f: "filter (\<lambda>c. \<not> isspace c) ?ds = ?ds" by simp
      have "drop p inp = ?ds @ dropWhile isdigit (drop p inp)"
        by (rule takeWhile_dropWhile_id [symmetric])
      also have "dropWhile isdigit (drop p inp) = drop (p + length ?ds) inp"
        by (simp only: dropWhile_eq_drop drop_drop add.commute)
      finally have "filter (\<lambda>c. \<not> isspace c) (drop p inp) =
          filter (\<lambda>c. \<not> isspace c) (?ds @ drop (p + length ?ds) inp)"
        by (rule arg_cong)
      then have "filter (\<lambda>c. \<not> isspace c) (drop p inp) =
          ?ds @ filter (\<lambda>c. \<not> isspace c) (drop (p + length ?ds) inp)"
        by (simp only: filter_append f)
      moreover from takeWhile_digits_pos [OF True num(4)] have "symbol_at inp (p, Digits ?ds)"
        by (simp add: symbol_at_def)
      ultimately show ?thesis using IH [OF s r] syms by (simp add: spelling_def)
    next
      case bad
      with less.prems show ?thesis by (simp add: scan_bad)
    qed
  qed
qed

lemma scan_no_token:
  "(\<nexists>p. scan_reaches inp p \<and> no_token_at inp p) \<Longrightarrow> \<exists>syms. scan inp 0 = Inr syms"
proof (cases "scan inp 0")
  case (Inl q)
  assume no: "\<nexists>p. scan_reaches inp p \<and> no_token_at inp p"
  from Inl have "tokenize_loop inp 0 = Inl (Error_at q Cannot_tokenize)"
    by (simp add: tokenize_loop_scan)
  from tokenize_loop_error [OF this] no show ?thesis
    by (auto simp: scan_reaches_def)
next
  case (Inr syms)
  then show ?thesis by blast
qed



text \<open>
  Claim C5, amended. \<^verbatim>\<open>tokenize\<close> returns on every input. It fails exactly when the scan
  from offset 0 reaches a position whose character is not white space, not a digit and at
  which no operator token starts, and the error carries the offset of that position; a
  \<^verbatim>\<open>=\<close> or \<^verbatim>\<open>!\<close> that no \<^verbatim>\<open>=\<close> follows is such a position. When the scan reaches no such
  position, the result is the list of the token records of the symbols of the input, in
  their order, followed by the one \<^verbatim>\<open>TK_EOF\<close> token at the length of the input: every
  symbol is an operator or a whole run of digits at its offset, and together the symbols
  are the input without its white space.
\<close>

theorem tokenize_total:
  "(tokenize g = Inl e \<longleftrightarrow>
      (\<exists>p. scan_reaches (user_input g) p \<and> no_token_at (user_input g) p \<and>
           e = Error_at p Cannot_tokenize)) \<and>
   ((\<nexists>p. scan_reaches (user_input g) p \<and> no_token_at (user_input g) p) \<longrightarrow>
      (\<exists>syms. scan (user_input g) 0 = Inr syms \<and>
         tokenize g =
           Inr (map record_of syms @
                [\<lparr>kind = TK_EOF, val = 0, str = length (user_input g), len = 0\<rparr>]) \<and>
         list_all (symbol_at (user_input g)) syms \<and>
         concat (map (spelling \<circ> snd) syms) = filter (\<lambda>c. \<not> isspace c) (user_input g)))"
proof (intro conjI iffI impI)
  assume "tokenize g = Inl e"
  then show "\<exists>p. scan_reaches (user_input g) p \<and> no_token_at (user_input g) p \<and>
      e = Error_at p Cannot_tokenize"
    using tokenize_loop_error [of "user_input g" 0 e] by (simp add: tokenize_def scan_reaches_def)
next
  assume "\<exists>p. scan_reaches (user_input g) p \<and> no_token_at (user_input g) p \<and>
      e = Error_at p Cannot_tokenize"
  then obtain p where "(scan_step (user_input g))\<^sup>*\<^sup>* 0 p" "no_token_at (user_input g) p"
    "e = Error_at p Cannot_tokenize"
    by (auto simp: scan_reaches_def)
  then show "tokenize g = Inl e"
    using scan_steps_error [of "user_input g" 0 p e] by (simp add: tokenize_def tokenize_loop_bad)
next
  assume "\<nexists>p. scan_reaches (user_input g) p \<and> no_token_at (user_input g) p"
  then obtain syms where s: "scan (user_input g) 0 = Inr syms"
    using scan_no_token by blast
  then have "tokenize g =
      Inr (map record_of syms @ [\<lparr>kind = TK_EOF, val = 0, str = length (user_input g), len = 0\<rparr>])"
    by (simp add: tokenize_def tokenize_loop_scan)
  with s scan_symbols [OF s]
  show "\<exists>syms. scan (user_input g) 0 = Inr syms \<and>
      tokenize g =
        Inr (map record_of syms @
             [\<lparr>kind = TK_EOF, val = 0, str = length (user_input g), len = 0\<rparr>]) \<and>
      list_all (symbol_at (user_input g)) syms \<and>
      concat (map (spelling \<circ> snd) syms) = filter (\<lambda>c. \<not> isspace c) (user_input g)"
    by simp
qed

theorem tokenize_total_witness:
  "scan_reaches ''a'' 0 \<and> no_token_at ''a'' 0 \<and>
   tokenize \<lparr>user_input = ''a'', token = []\<rparr> = Inl (Error_at 0 Cannot_tokenize) \<and>
   (\<nexists>p. scan_reaches ''1<=2'' p \<and> no_token_at ''1<=2'' p) \<and>
   scan ''1<=2'' 0 = Inr [(0, Digits ''1''), (1, Operator ''<=''), (3, Digits ''2'')] \<and>
   tokenize \<lparr>user_input = ''1<=2'', token = []\<rparr> =
     Inr [\<lparr>kind = TK_NUM, val = 1, str = 0, len = 1\<rparr>,
          \<lparr>kind = TK_RESERVED, val = 0, str = 1, len = 2\<rparr>,
          \<lparr>kind = TK_NUM, val = 2, str = 3, len = 1\<rparr>,
          \<lparr>kind = TK_EOF, val = 0, str = 4, len = 0\<rparr>] \<and>
   list_all (symbol_at ''1<=2'') [(0, Digits ''1''), (1, Operator ''<=''), (3, Digits ''2'')] \<and>
   concat (map (spelling \<circ> snd) [(0, Digits ''1''), (1, Operator ''<=''), (3, Digits ''2'')]) =
     filter (\<lambda>c. \<not> isspace c) ''1<=2''"
proof -
  let ?g = "\<lparr>user_input = ''1<=2'', token = []\<rparr>"
  let ?syms = "[(0, Digits ''1''), (1, Operator ''<=''), (3, Digits ''2'')]"
  have a: "scan_reaches ''a'' 0 \<and> no_token_at ''a'' 0"
    by (simp add: scan_reaches_def no_token_at_def isspace_def isdigit_def operator2_at_def
        operator1_at_def two_char_operators_def one_char_operators_def)
  with tokenize_total [of "\<lparr>user_input = ''a'', token = []\<rparr>" "Error_at 0 Cannot_tokenize"]
  have b: "tokenize \<lparr>user_input = ''a'', token = []\<rparr> = Inl (Error_at 0 Cannot_tokenize)"
    by auto
  have t: "tokenize ?g \<noteq> Inl e" for e
    by (simp add: lexer_defs)
  have c: "\<nexists>p. scan_reaches ''1<=2'' p \<and> no_token_at ''1<=2'' p"
  proof
    assume "\<exists>p. scan_reaches ''1<=2'' p \<and> no_token_at ''1<=2'' p"
    then obtain p where "scan_reaches ''1<=2'' p \<and> no_token_at ''1<=2'' p" ..
    with tokenize_total [of ?g "Error_at p Cannot_tokenize"] t
    show False by simp
  qed
  have s: "scan ''1<=2'' 0 = Inr ?syms"
    by (simp add: scan_defs)
  from c tokenize_total [of ?g undefined]
  obtain syms where "scan ''1<=2'' 0 = Inr syms"
    and r: "tokenize ?g = Inr (map record_of syms @ [\<lparr>kind = TK_EOF, val = 0, str = length ''1<=2'', len = 0\<rparr>])"
      "list_all (symbol_at ''1<=2'') syms"
      "concat (map (spelling \<circ> snd) syms) = filter (\<lambda>c. \<not> isspace c) ''1<=2''"
    by auto
  with s have "syms = ?syms" by simp
  with r have "tokenize ?g =
     Inr [\<lparr>kind = TK_NUM, val = 1, str = 0, len = 1\<rparr>,
          \<lparr>kind = TK_RESERVED, val = 0, str = 1, len = 2\<rparr>,
          \<lparr>kind = TK_NUM, val = 2, str = 3, len = 1\<rparr>,
          \<lparr>kind = TK_EOF, val = 0, str = 4, len = 0\<rparr>]"
    and "list_all (symbol_at ''1<=2'') ?syms"
    and "concat (map (spelling \<circ> snd) ?syms) = filter (\<lambda>c. \<not> isspace c) ''1<=2''"
    by (simp_all add: record_of_def decimal_def digit_val_def LONG_MAX_def)
  with a b c s show ?thesis by blast
qed

text \<open>
  Claim C5 as stated fails at a lone \<^verbatim>\<open>=\<close>: the character is the first one of the operator
  \<^verbatim>\<open>==\<close>, it is not white space and not a digit, and \<^verbatim>\<open>tokenize\<close> fails at its offset.
\<close>

theorem lone_equals_counterexample:
  "tokenize \<lparr>user_input = ''='', token = []\<rparr> = Inl (Error_at 0 Cannot_tokenize) \<and>
   starts_operator (''='' ! 0) \<and> \<not> isspace (''='' ! 0) \<and> \<not> isdigit (''='' ! 0)"
  by (simp add: lexer_defs starts_operator_def two_char_operators_def one_char_operators_def)

lemma sint_word32_small: "n < 2 ^ 31 \<Longrightarrow> sint (word_of_nat n :: 32 word) = int n"
proof -
  assume "n < 2 ^ 31"
  then have "int n < 2 ^ 31" by (metis of_nat_less_iff of_nat_numeral of_nat_power)
  moreover have "(word_of_nat n :: 32 word) = word_of_int (int n)" by simp
  ultimately show ?thesis
    by (simp only: sint_sbintrunc') (simp add: signed_take_bit_int_eq_self)
qed

text \<open>
  Claim C6, amended. Where the text at the scan position starts with \<^verbatim>\<open>==\<close>, \<^verbatim>\<open>!=\<close>,
  \<^verbatim>\<open><=\<close> or \<^verbatim>\<open>>=\<close>, the loop emits one reserved token of length 2 and goes on behind
  it; \<^verbatim>\<open>1<=2\<close> gives a number, one operator and a number. Where the scan position is on
  a digit, the loop emits one number token for the whole run of digits (the character behind
  it is not a digit) and goes on behind the run. The value of the token is the run read in
  base 10 when that is below \<open>2 ^ 31\<close>. In general it is the value of the run, replaced by
  \<^verbatim>\<open>LONG_MAX\<close> when larger, reduced to the 32 bits of an \<^verbatim>\<open>int\<close>.
\<close>

theorem tokenize_longest_match:
  "(operator2_at inp p \<longrightarrow>
      tokenize_loop inp p = link (new_token TK_RESERVED p 2) (tokenize_loop inp (p + 2))) \<and>
   (p < length inp \<and> isdigit (inp ! p) \<and> ds = takeWhile isdigit (drop p inp) \<and>
    t = \<lparr>kind = TK_NUM, val = word_of_nat (min (decimal ds) LONG_MAX), str = p, len = length ds\<rparr> \<longrightarrow>
      tokenize_loop inp p = link t (tokenize_loop inp (p + length ds)) \<and>
      lexeme inp t = ds \<and> ds \<noteq> [] \<and>
      (p + length ds < length inp \<longrightarrow> \<not> isdigit (inp ! (p + length ds))) \<and>
      (decimal ds < 2 ^ 31 \<longrightarrow> sint (val t) = int (decimal ds))) \<and>
   tokenize \<lparr>user_input = ''1<=2'', token = []\<rparr> =
     Inr [\<lparr>kind = TK_NUM, val = 1, str = 0, len = 1\<rparr>,
          \<lparr>kind = TK_RESERVED, val = 0, str = 1, len = 2\<rparr>,
          \<lparr>kind = TK_NUM, val = 2, str = 3, len = 1\<rparr>,
          \<lparr>kind = TK_EOF, val = 0, str = 4, len = 0\<rparr>]"
proof (intro conjI impI)
  assume a: "operator2_at inp p"
  with operator2_at_first [OF a] operator2_not_space [OF a]
  show "tokenize_loop inp p = link (new_token TK_RESERVED p 2) (tokenize_loop inp (p + 2))"
    by (simp add: tokenize_loop_operator2)
next
  assume a: "p < length inp \<and> isdigit (inp ! p) \<and> ds = takeWhile isdigit (drop p inp) \<and>
    t = \<lparr>kind = TK_NUM, val = word_of_nat (min (decimal ds) LONG_MAX), str = p, len = length ds\<rparr>"
  then have p: "p < length inp" and d: "isdigit (inp ! p)" by simp_all
  from a digit_not_operator [OF p d] isdigit_not_other [OF d]
  show "tokenize_loop inp p = link t (tokenize_loop inp (p + length ds))"
    by (simp add: tokenize_loop_number)
  from a show "lexeme inp t = ds"
    by (simp add: lexeme_def) (metis takeWhile_eq_take)
  from a takeWhile_digits_pos [OF p d] show "ds \<noteq> []" by auto
  {
    assume "p + length ds < length inp"
    with a show "\<not> isdigit (inp ! (p + length ds))"
      using takeWhile_stops [of p isdigit inp] by simp
  }
  {
    assume s: "decimal ds < 2 ^ 31"
    then have "min (decimal ds) LONG_MAX = decimal ds" by (simp add: LONG_MAX_def)
    with a s show "sint (val t) = int (decimal ds)"
      by (simp add: sint_word32_small)
  }
next
  show "tokenize \<lparr>user_input = ''1<=2'', token = []\<rparr> =
     Inr [\<lparr>kind = TK_NUM, val = 1, str = 0, len = 1\<rparr>,
          \<lparr>kind = TK_RESERVED, val = 0, str = 1, len = 2\<rparr>,
          \<lparr>kind = TK_NUM, val = 2, str = 3, len = 1\<rparr>,
          \<lparr>kind = TK_EOF, val = 0, str = 4, len = 0\<rparr>]"
    by (simp add: lexer_defs)
qed

theorem tokenize_longest_match_witness:
  "operator2_at ''1<=2'' 1 \<and>
   tokenize_loop ''1<=2'' 1 = link (new_token TK_RESERVED 1 2) (tokenize_loop ''1<=2'' (1 + 2)) \<and>
   (3 < length ''1<=2'' \<and> isdigit (''1<=2'' ! 3) \<and> ''2'' = takeWhile isdigit (drop 3 ''1<=2'')) \<and>
   decimal ''2'' < 2 ^ 31 \<and>
   tokenize_loop ''1<=2'' 3 =
     link \<lparr>kind = TK_NUM, val = word_of_nat (min (decimal ''2'') LONG_MAX), str = 3, len = length ''2''\<rparr>
       (tokenize_loop ''1<=2'' (3 + length ''2'')) \<and>
   sint (val \<lparr>kind = TK_NUM, val = word_of_nat (min (decimal ''2'') LONG_MAX), str = 3,
              len = length ''2''\<rparr>) = int (decimal ''2'')"
proof -
  let ?t = "\<lparr>kind = TK_NUM, val = word_of_nat (min (decimal ''2'') LONG_MAX), str = 3,
             len = length ''2''\<rparr>"
  have h1: "operator2_at ''1<=2'' 1"
    by (simp add: operator2_at_def two_char_operators_def)
  have h2: "3 < length ''1<=2'' \<and> isdigit (''1<=2'' ! 3) \<and> ''2'' = takeWhile isdigit (drop 3 ''1<=2'')"
    by (simp add: isdigit_def)
  have h3: "decimal ''2'' < 2 ^ 31"
    by (simp add: decimal_def digit_val_def)
  from tokenize_longest_match [of "''1<=2''" 1 "''2''" ?t] h1
  have c1: "tokenize_loop ''1<=2'' 1 =
      link (new_token TK_RESERVED 1 2) (tokenize_loop ''1<=2'' (1 + 2))"
    by blast
  from tokenize_longest_match [of "''1<=2''" 3 "''2''" ?t] h2 h3
  have c2: "tokenize_loop ''1<=2'' 3 = link ?t (tokenize_loop ''1<=2'' (3 + length ''2''))"
    and c3: "sint (val ?t) = int (decimal ''2'')"
    by blast+
  from h1 c1 h2 h3 c2 c3 show ?thesis by blast
qed

text \<open>
  Claim C6 as stated fails for a long run: the value of the token for \<^verbatim>\<open>2147483648\<close> is
  the \<^verbatim>\<open>int\<close> \<open>- 2147483648\<close>.
\<close>

theorem number_value_counterexample:
  "tokenize \<lparr>user_input = ''2147483648'', token = []\<rparr> =
     Inr [\<lparr>kind = TK_NUM, val = 2147483648, str = 0, len = 10\<rparr>,
          \<lparr>kind = TK_EOF, val = 0, str = 10, len = 0\<rparr>] \<and>
   sint (2147483648 :: 32 word) = - 2147483648 \<and>
   decimal ''2147483648'' = 2147483648"
  by (simp add: lexer_defs)

text \<open>
  Claim C8. \<^verbatim>\<open>tokenize\<close> reads the global \<^verbatim>\<open>user_input\<close> only and writes no global.
  When a first run has returned a token list and \<^verbatim>\<open>main\<close> has stored it in \<^verbatim>\<open>token\<close>,
  a second run returns the same list: the same kinds, values, offsets and lengths, and
  with them the same texts.
\<close>

theorem tokenize_repeatable:
  assumes "tokenize g = Inr toks"
  shows "tokenize (g\<lparr>token := toks\<rparr>) = Inr toks"
  using assms by (simp add: tokenize_def)

theorem tokenize_repeatable_witness:
  "tokenize \<lparr>user_input = ''1<=2'', token = []\<rparr> =
     Inr [\<lparr>kind = TK_NUM, val = 1, str = 0, len = 1\<rparr>,
          \<lparr>kind = TK_RESERVED, val = 0, str = 1, len = 2\<rparr>,
          \<lparr>kind = TK_NUM, val = 2, str = 3, len = 1\<rparr>,
          \<lparr>kind = TK_EOF, val = 0, str = 4, len = 0\<rparr>] \<and>
   tokenize \<lparr>user_input = ''1<=2'', token =
         [\<lparr>kind = TK_NUM, val = 1, str = 0, len = 1\<rparr>,
          \<lparr>kind = TK_RESERVED, val = 0, str = 1, len = 2\<rparr>,
          \<lparr>kind = TK_NUM, val = 2, str = 3, len = 1\<rparr>,
          \<lparr>kind = TK_EOF, val = 0, str = 4, len = 0\<rparr>]\<rparr> =
     Inr [\<lparr>kind = TK_NUM, val = 1, str = 0, len = 1\<rparr>,
          \<lparr>kind = TK_RESERVED, val = 0, str = 1, len = 2\<rparr>,
          \<lparr>kind = TK_NUM, val = 2, str = 3, len = 1\<rparr>,
          \<lparr>kind = TK_EOF, val = 0, str = 4, len = 0\<rparr>]"
proof -
  have t: "tokenize \<lparr>user_input = ''1<=2'', token = []\<rparr> =
     Inr [\<lparr>kind = TK_NUM, val = 1, str = 0, len = 1\<rparr>,
          \<lparr>kind = TK_RESERVED, val = 0, str = 1, len = 2\<rparr>,
          \<lparr>kind = TK_NUM, val = 2, str = 3, len = 1\<rparr>,
          \<lparr>kind = TK_EOF, val = 0, str = 4, len = 0\<rparr>]"
    by (simp add: lexer_defs)
  from tokenize_repeatable [OF t] t show ?thesis by simp
qed

text \<open>
Every number token of the result has the value of its text.
\<close>

lemma tokenize_loop_lexed:
  "tokenize_loop inp p = Inr toks \<Longrightarrow> \<forall>t \<in> set toks. lexed inp t"
proof (induction "length inp - p" arbitrary: p toks rule: less_induct)
  case less
  show ?case
  proof (cases "p < length inp")
    case False
    with less.prems show ?thesis by (auto simp: tokenize_loop_end lexed_def new_token_def)
  next
    case True
    have IH: "\<forall>t \<in> set ts. lexed inp t" if "scan_step inp p p'" "tokenize_loop inp p' = Inr ts" for p' ts
    proof -
      from scan_step_advances [OF that(1)] True have "length inp - p' < length inp - p"
        by linarith
      with less.hyps [of p' ts] that(2) show ?thesis by simp
    qed
    from True show ?thesis
    proof (cases rule: scan_cases)
      case space
      with True have s: "scan_step inp p (p + 1)" by (rule scan_step.skip_space)
      from space True less.prems have "tokenize_loop inp (p + 1) = Inr toks"
        by (simp add: tokenize_loop_space)
      with IH [OF s] show ?thesis .
    next
      case op2
      with True have s: "scan_step inp p (p + 2)" by (intro scan_step.operator2)
      from op2 True less.prems obtain rest where r: "tokenize_loop inp (p + 2) = Inr rest"
        and "toks = new_token TK_RESERVED p 2 # rest"
        by (auto simp: tokenize_loop_operator2 link_Inr)
      with IH [OF s r] show ?thesis
        by (simp add: lexed_def new_token_def)
    next
      case op1
      with True have s: "scan_step inp p (p + 1)" by (intro scan_step.operator1)
      from op1 True less.prems obtain rest where r: "tokenize_loop inp (p + 1) = Inr rest"
        and "toks = new_token TK_RESERVED p 1 # rest"
        by (auto simp: tokenize_loop_operator1 link_Inr)
      with IH [OF s r] show ?thesis
        by (simp add: lexed_def new_token_def)
    next
      case num
      let ?ds = "takeWhile isdigit (drop p inp)"
      let ?t = "\<lparr>kind = TK_NUM, val = word_of_nat (min (decimal ?ds) LONG_MAX),
                 str = p, len = length ?ds\<rparr>"
      from num True have s: "scan_step inp p (p + length ?ds)" by (intro scan_step.number)
      from num True less.prems obtain rest where r: "tokenize_loop inp (p + length ?ds) = Inr rest"
        and t: "toks = ?t # rest"
        by (auto simp: tokenize_loop_number link_Inr)
      have "lexeme inp ?t = ?ds"
        by (simp add: lexeme_def) (metis takeWhile_eq_take)
      then have "lexed inp ?t" by (simp add: lexed_def literal_def)
      with IH [OF s r] t show ?thesis by simp
    next
      case bad
      with less.prems show ?thesis by (simp add: tokenize_loop_bad)
    qed
  qed
qed

lemma tokenize_lexed:
  assumes "tokenize \<lparr>user_input = arg, token = []\<rparr> = Inr toks"
  shows "\<forall>t \<in> set toks. lexed arg t"
  using assms tokenize_loop_lexed [of arg 0 toks]
  by (simp add: tokenize_def)

lemma eof_not_operator: "kind t = TK_EOF \<Longrightarrow> \<not> is_op inp t op"
  by (simp add: is_op_def mismatch_def)

section \<open>The invariant of the syntax tree\<close>

lemma wf_new_num: "wf_node (new_num v)"
  by (simp add: new_num_def new_node_def)

lemma wf_new_binary: "k \<noteq> ND_NUM \<Longrightarrow> wf_node (new_binary k a b) \<longleftrightarrow> wf_node a \<and> wf_node b"
  by (simp add: new_binary_def new_node_def)

text \<open>
Every parsing function returns a well-formed tree; a loop keeps its tree well formed.
\<close>

lemma parser_wf:
  "\<forall>n g'. expr g1 = Inr (n, g') \<longrightarrow> wf_node n"
  "\<forall>n g'. equality g2 = Inr (n, g') \<longrightarrow> wf_node n"
  "wf_node n3 \<longrightarrow> (\<forall>n g'. equality_loop n3 g3 = Inr (n, g') \<longrightarrow> wf_node n)"
  "\<forall>n g'. relational g4 = Inr (n, g') \<longrightarrow> wf_node n"
  "wf_node n5 \<longrightarrow> (\<forall>n g'. relational_loop n5 g5 = Inr (n, g') \<longrightarrow> wf_node n)"
  "\<forall>n g'. add g6 = Inr (n, g') \<longrightarrow> wf_node n"
  "wf_node n7 \<longrightarrow> (\<forall>n g'. add_loop n7 g7 = Inr (n, g') \<longrightarrow> wf_node n)"
  "\<forall>n g'. mul g8 = Inr (n, g') \<longrightarrow> wf_node n"
  "wf_node n9 \<longrightarrow> (\<forall>n g'. mul_loop n9 g9 = Inr (n, g') \<longrightarrow> wf_node n)"
  "\<forall>n g'. unary g10 = Inr (n, g') \<longrightarrow> wf_node n"
  "\<forall>n g'. primary g11 = Inr (n, g') \<longrightarrow> wf_node n"
proof (induct g1 and g2 and n3 g3 and g4 and n5 g5 and g6 and n7 g7 and g8 and n9 g9 and g10 and g11
    rule: expr_equality_equality_loop_relational_relational_loop_add_add_loop_mul_mul_loop_unary_primary.induct)
  case (1 g)
  then show ?case by (simp add: expr.simps [of g])
next
  case (2 g)
  note IH = 2
  show ?case
  proof (intro allI impI)
    fix n g' assume R: "equality g = Inr (n, g')"
    from R [unfolded equality.simps [of g]] obtain node g1 where A: "relational g = Inr (node, g1)"
      and L: "equality_loop node g1 = Inr (n, g')"
      by (auto elim!: bindE)
    from IH(1) A have "wf_node node" by simp
    with IH(2) [OF A refl] L show "wf_node n" by simp
  qed
next
  case (3 node g)
  note IH = 3
  have NF: "\<not> False" by simp
  show ?case
  proof (intro allI impI)
    fix n g' assume W: "wf_node node" and R: "equality_loop node g = Inr (n, g')"
    note R0 = R [unfolded equality_loop.simps [of node g]]
    from R0 obtain c1 h1 where C1: "consume ''=='' g = Inr (c1, h1)"
      by (auto simp: bind_def split: sum.splits)
    show "wf_node n"
    proof (cases c1)
      case True
      with C1 have T: "consume ''=='' g = Inr (True, h1)" by simp
      with R0 obtain r g2 where A: "relational h1 = Inr (r, g2)"
        and L: "equality_loop (new_binary ND_EQ node r) g2 = Inr (n, g')"
        by (auto simp: bind_def split: sum.splits)
      from IH(1) [OF T refl TrueI] A have "wf_node r" by simp
      with W have "wf_node (new_binary ND_EQ node r)" by (simp add: wf_new_binary)
      with IH(2) [OF T refl TrueI A refl] L show ?thesis by simp
    next
      case False
      with consume_cases [OF C1] C1 have F1: "consume ''=='' g = Inr (False, g)" by simp
      from R0 F1 obtain c2 h2 where C2: "consume ''!='' g = Inr (c2, h2)"
        by (auto simp: bind_def split: sum.splits)
      show "wf_node n"
      proof (cases c2)
        case True
        with C2 have T: "consume ''!='' g = Inr (True, h2)" by simp
        with R0 F1 obtain r g2 where A: "relational h2 = Inr (r, g2)"
          and L: "equality_loop (new_binary ND_NE node r) g2 = Inr (n, g')"
          by (auto simp: bind_def split: sum.splits)
        from IH(3) [OF F1 refl NF T refl TrueI] A have "wf_node r" by simp
        with W have "wf_node (new_binary ND_NE node r)" by (simp add: wf_new_binary)
        with IH(4) [OF F1 refl NF T refl TrueI A refl] L show ?thesis by simp
      next
        case False
        with consume_cases [OF C2] C2 have F2: "consume ''!='' g = Inr (False, g)" by simp
        from R0 F1 F2 W show ?thesis
          by (auto simp: bind_def split: sum.splits)
      qed
    qed
  qed
next
  case (4 g)
  note IH = 4
  show ?case
  proof (intro allI impI)
    fix n g' assume R: "relational g = Inr (n, g')"
    from R [unfolded relational.simps [of g]] obtain node g1 where A: "add g = Inr (node, g1)"
      and L: "relational_loop node g1 = Inr (n, g')"
      by (auto elim!: bindE)
    from IH(1) A have "wf_node node" by simp
    with IH(2) [OF A refl] L show "wf_node n" by simp
  qed
next
  case (5 node g)
  note IH = 5
  have NF: "\<not> False" by simp
  show ?case
  proof (intro allI impI)
    fix n g' assume W: "wf_node node" and R: "relational_loop node g = Inr (n, g')"
    note R0 = R [unfolded relational_loop.simps [of node g]]
    from R0 obtain c1 h1 where C1: "consume ''<'' g = Inr (c1, h1)"
      by (auto simp: bind_def split: sum.splits)
    show "wf_node n"
    proof (cases c1)
      case True
      with C1 have T: "consume ''<'' g = Inr (True, h1)" by simp
      with R0 obtain r g2 where A: "add h1 = Inr (r, g2)"
        and L: "relational_loop (new_binary ND_LT node r) g2 = Inr (n, g')"
        by (auto simp: bind_def split: sum.splits)
      from IH(1) [OF T refl TrueI] A have "wf_node r" by simp
      with W have "wf_node (new_binary ND_LT node r)" by (simp add: wf_new_binary)
      with IH(2) [OF T refl TrueI A refl] L show ?thesis by simp
    next
      case False
      with consume_cases [OF C1] C1 have F1: "consume ''<'' g = Inr (False, g)" by simp
      from R0 F1 obtain c2 h2 where C2: "consume ''<='' g = Inr (c2, h2)"
        by (auto simp: bind_def split: sum.splits)
      show "wf_node n"
      proof (cases c2)
        case True
        with C2 have T: "consume ''<='' g = Inr (True, h2)" by simp
        with R0 F1 obtain r g2 where A: "add h2 = Inr (r, g2)"
          and L: "relational_loop (new_binary ND_LE node r) g2 = Inr (n, g')"
          by (auto simp: bind_def split: sum.splits)
        from IH(3) [OF F1 refl NF T refl TrueI] A have "wf_node r" by simp
        with W have "wf_node (new_binary ND_LE node r)" by (simp add: wf_new_binary)
        with IH(4) [OF F1 refl NF T refl TrueI A refl] L show ?thesis by simp
      next
        case False
        with consume_cases [OF C2] C2 have F2: "consume ''<='' g = Inr (False, g)" by simp
        from R0 F1 F2 obtain c3 h3 where C3: "consume ''>'' g = Inr (c3, h3)"
          by (auto simp: bind_def split: sum.splits)
        show "wf_node n"
        proof (cases c3)
          case True
          with C3 have T: "consume ''>'' g = Inr (True, h3)" by simp
          with R0 F1 F2 obtain r g2 where A: "add h3 = Inr (r, g2)"
            and L: "relational_loop (new_binary ND_LT r node) g2 = Inr (n, g')"
            by (auto simp: bind_def split: sum.splits)
          from IH(5) [OF F1 refl NF F2 refl NF T refl TrueI] A have "wf_node r" by simp
          with W have "wf_node (new_binary ND_LT r node)" by (simp add: wf_new_binary)
          with IH(6) [OF F1 refl NF F2 refl NF T refl TrueI A refl] L show ?thesis by simp
        next
          case False
          with consume_cases [OF C3] C3 have F3: "consume ''>'' g = Inr (False, g)" by simp
          from R0 F1 F2 F3 obtain c4 h4 where C4: "consume ''>='' g = Inr (c4, h4)"
            by (auto simp: bind_def split: sum.splits)
          show "wf_node n"
          proof (cases c4)
            case True
            with C4 have T: "consume ''>='' g = Inr (True, h4)" by simp
            with R0 F1 F2 F3 obtain r g2 where A: "add h4 = Inr (r, g2)"
              and L: "relational_loop (new_binary ND_LE r node) g2 = Inr (n, g')"
              by (auto simp: bind_def split: sum.splits)
            from IH(7) [OF F1 refl NF F2 refl NF F3 refl NF T refl TrueI] A have "wf_node r" by simp
            with W have "wf_node (new_binary ND_LE r node)" by (simp add: wf_new_binary)
            with IH(8) [OF F1 refl NF F2 refl NF F3 refl NF T refl TrueI A refl] L show ?thesis by simp
          next
            case False
            with consume_cases [OF C4] C4 have F4: "consume ''>='' g = Inr (False, g)" by simp
            from R0 F1 F2 F3 F4 W show ?thesis
              by (auto simp: bind_def split: sum.splits)
          qed
        qed
      qed
    qed
  qed
next
  case (6 g)
  note IH = 6
  show ?case
  proof (intro allI impI)
    fix n g' assume R: "add g = Inr (n, g')"
    from R [unfolded add.simps [of g]] obtain node g1 where A: "mul g = Inr (node, g1)"
      and L: "add_loop node g1 = Inr (n, g')"
      by (auto elim!: bindE)
    from IH(1) A have "wf_node node" by simp
    with IH(2) [OF A refl] L show "wf_node n" by simp
  qed
next
  case (7 node g)
  note IH = 7
  have NF: "\<not> False" by simp
  show ?case
  proof (intro allI impI)
    fix n g' assume W: "wf_node node" and R: "add_loop node g = Inr (n, g')"
    note R0 = R [unfolded add_loop.simps [of node g]]
    from R0 obtain c1 h1 where C1: "consume ''+'' g = Inr (c1, h1)"
      by (auto simp: bind_def split: sum.splits)
    show "wf_node n"
    proof (cases c1)
      case True
      with C1 have T: "consume ''+'' g = Inr (True, h1)" by simp
      with R0 obtain r g2 where A: "mul h1 = Inr (r, g2)"
        and L: "add_loop (new_binary ND_ADD node r) g2 = Inr (n, g')"
        by (auto simp: bind_def split: sum.splits)
      from IH(1) [OF T refl TrueI] A have "wf_node r" by simp
      with W have "wf_node (new_binary ND_ADD node r)" by (simp add: wf_new_binary)
      with IH(2) [OF T refl TrueI A refl] L show ?thesis by simp
    next
      case False
      with consume_cases [OF C1] C1 have F1: "consume ''+'' g = Inr (False, g)" by simp
      from R0 F1 obtain c2 h2 where C2: "consume ''-'' g = Inr (c2, h2)"
        by (auto simp: bind_def split: sum.splits)
      show "wf_node n"
      proof (cases c2)
        case True
        with C2 have T: "consume ''-'' g = Inr (True, h2)" by simp
        with R0 F1 obtain r g2 where A: "mul h2 = Inr (r, g2)"
          and L: "add_loop (new_binary ND_SUB node r) g2 = Inr (n, g')"
          by (auto simp: bind_def split: sum.splits)
        from IH(3) [OF F1 refl NF T refl TrueI] A have "wf_node r" by simp
        with W have "wf_node (new_binary ND_SUB node r)" by (simp add: wf_new_binary)
        with IH(4) [OF F1 refl NF T refl TrueI A refl] L show ?thesis by simp
      next
        case False
        with consume_cases [OF C2] C2 have F2: "consume ''-'' g = Inr (False, g)" by simp
        from R0 F1 F2 W show ?thesis
          by (auto simp: bind_def split: sum.splits)
      qed
    qed
  qed
next
  case (8 g)
  note IH = 8
  show ?case
  proof (intro allI impI)
    fix n g' assume R: "mul g = Inr (n, g')"
    from R [unfolded mul.simps [of g]] obtain node g1 where A: "unary g = Inr (node, g1)"
      and L: "mul_loop node g1 = Inr (n, g')"
      by (auto elim!: bindE)
    from IH(1) A have "wf_node node" by simp
    with IH(2) [OF A refl] L show "wf_node n" by simp
  qed
next
  case (9 node g)
  note IH = 9
  have NF: "\<not> False" by simp
  show ?case
  proof (intro allI impI)
    fix n g' assume W: "wf_node node" and R: "mul_loop node g = Inr (n, g')"
    note R0 = R [unfolded mul_loop.simps [of node g]]
    from R0 obtain c1 h1 where C1: "consume ''*'' g = Inr (c1, h1)"
      by (auto simp: bind_def split: sum.splits)
    show "wf_node n"
    proof (cases c1)
      case True
      with C1 have T: "consume ''*'' g = Inr (True, h1)" by simp
      with R0 obtain r g2 where A: "unary h1 = Inr (r, g2)"
        and L: "mul_loop (new_binary ND_MUL node r) g2 = Inr (n, g')"
        by (auto simp: bind_def split: sum.splits)
      from IH(1) [OF T refl TrueI] A have "wf_node r" by simp
      with W have "wf_node (new_binary ND_MUL node r)" by (simp add: wf_new_binary)
      with IH(2) [OF T refl TrueI A refl] L show ?thesis by simp
    next
      case False
      with consume_cases [OF C1] C1 have F1: "consume ''*'' g = Inr (False, g)" by simp
      from R0 F1 obtain c2 h2 where C2: "consume ''/'' g = Inr (c2, h2)"
        by (auto simp: bind_def split: sum.splits)
      show "wf_node n"
      proof (cases c2)
        case True
        with C2 have T: "consume ''/'' g = Inr (True, h2)" by simp
        with R0 F1 obtain r g2 where A: "unary h2 = Inr (r, g2)"
          and L: "mul_loop (new_binary ND_DIV node r) g2 = Inr (n, g')"
          by (auto simp: bind_def split: sum.splits)
        from IH(3) [OF F1 refl NF T refl TrueI] A have "wf_node r" by simp
        with W have "wf_node (new_binary ND_DIV node r)" by (simp add: wf_new_binary)
        with IH(4) [OF F1 refl NF T refl TrueI A refl] L show ?thesis by simp
      next
        case False
        with consume_cases [OF C2] C2 have F2: "consume ''/'' g = Inr (False, g)" by simp
        from R0 F1 F2 W show ?thesis
          by (auto simp: bind_def split: sum.splits)
      qed
    qed
  qed
next
  case (10 g)
  note IH = 10
  have NF: "\<not> False" by simp
  show ?case
  proof (intro allI impI)
    fix n g' assume R: "unary g = Inr (n, g')"
    note R0 = R [unfolded unary.simps [of g]]
    from R0 obtain c1 h1 where C1: "consume ''+'' g = Inr (c1, h1)"
      by (auto simp: bind_def split: sum.splits)
    show "wf_node n"
    proof (cases c1)
      case True
      with C1 have T: "consume ''+'' g = Inr (True, h1)" by simp
      with R0 have "primary h1 = Inr (n, g')" by simp
      with IH(1) [OF T refl TrueI] show ?thesis by simp
    next
      case False
      with consume_cases [OF C1] C1 have F1: "consume ''+'' g = Inr (False, g)" by simp
      from R0 F1 obtain c2 h2 where C2: "consume ''-'' g = Inr (c2, h2)"
        by (auto simp: bind_def split: sum.splits)
      show "wf_node n"
      proof (cases c2)
        case True
        with C2 have T: "consume ''-'' g = Inr (True, h2)" by simp
        with R0 F1 obtain r where A: "primary h2 = Inr (r, g')"
          and N: "n = new_binary ND_SUB (new_num 0) r"
          by (auto simp: bind_def split: sum.splits)
        from IH(2) [OF F1 refl NF T refl TrueI] A have "wf_node r" by simp
        with N show ?thesis by (simp add: wf_new_binary wf_new_num)
      next
        case False
        with consume_cases [OF C2] C2 have F2: "consume ''-'' g = Inr (False, g)" by simp
        with R0 F1 have "primary g = Inr (n, g')" by simp
        with IH(3) [OF F1 refl NF F2 refl NF] show ?thesis by simp
      qed
    qed
  qed
next
  case (11 g)
  note IH = 11
  show ?case
  proof (intro allI impI)
    fix n g' assume R: "primary g = Inr (n, g')"
    note R0 = R [unfolded primary.simps [of g]]
    from R0 obtain c1 h1 where C1: "consume ''('' g = Inr (c1, h1)"
      by (auto simp: bind_def split: sum.splits)
    show "wf_node n"
    proof (cases c1)
      case True
      with C1 have T: "consume ''('' g = Inr (True, h1)" by simp
      with R0 obtain g2 where "expr h1 = Inr (n, g2)"
        by (auto simp: bind_def split: sum.splits)
      with IH [OF T refl TrueI] show ?thesis by simp
    next
      case False
      with C1 R0 obtain v where "n = new_num v"
        by (auto simp: bind_def split: sum.splits)
      then show ?thesis by (simp add: wf_new_num)
    qed
  qed
qed

lemma minus_is_not_plus: "\<not> mismatch inp t ''-'' \<Longrightarrow> mismatch inp t ''+''"
  by (auto simp: mismatch_def memcmp_def)

text \<open>
  Claim C7. A tree returned by the parser is well formed: only \<^verbatim>\<open>ND_NUM\<close> nodes are leaves
  and every other node has both children. With the cursor on a \<^verbatim>\<open>+\<close> token, \<^verbatim>\<open>unary\<close>
  returns what \<^verbatim>\<open>primary\<close> returns behind the token. With the cursor on a \<^verbatim>\<open>-\<close> token
  and \<open>x\<close> the tree that \<^verbatim>\<open>primary\<close> returns behind it, \<^verbatim>\<open>unary\<close> returns the
  \<^verbatim>\<open>ND_SUB\<close> node over the number 0 and \<open>x\<close>, which is well formed again.
\<close>

theorem parser_tree_invariant:
  "(expr g = Inr (node, g') \<longrightarrow> wf_node node) \<and>
   (\<not> mismatch inp p ''+'' \<longrightarrow>
      unary \<lparr>user_input = inp, token = p # ps\<rparr> = primary \<lparr>user_input = inp, token = ps\<rparr>) \<and>
   (\<not> mismatch inp m ''-'' \<and> primary \<lparr>user_input = inp, token = ms\<rparr> = Inr (x, h) \<longrightarrow>
      unary \<lparr>user_input = inp, token = m # ms\<rparr> =
        Inr (Node ND_SUB (Some (Node ND_NUM None None 0)) (Some x) 0, h) \<and>
      wf_node (Node ND_SUB (Some (Node ND_NUM None None 0)) (Some x) 0))"
proof (intro conjI impI)
  assume "expr g = Inr (node, g')"
  with parser_wf(1) [of g] show "wf_node node" by simp
next
  assume "\<not> mismatch inp p ''+''"
  then show "unary \<lparr>user_input = inp, token = p # ps\<rparr> = primary \<lparr>user_input = inp, token = ps\<rparr>"
    by (simp add: unary.simps [of "\<lparr>user_input = inp, token = p # ps\<rparr>"] consume_def)
next
  assume a: "\<not> mismatch inp m ''-'' \<and> primary \<lparr>user_input = inp, token = ms\<rparr> = Inr (x, h)"
  with minus_is_not_plus [of inp m]
  show "unary \<lparr>user_input = inp, token = m # ms\<rparr> =
      Inr (Node ND_SUB (Some (Node ND_NUM None None 0)) (Some x) 0, h)"
    by (simp add: unary.simps [of "\<lparr>user_input = inp, token = m # ms\<rparr>"] consume_def
        new_binary_def new_num_def new_node_def)
  from a parser_wf(11) [of "\<lparr>user_input = inp, token = ms\<rparr>"]
  show "wf_node (Node ND_SUB (Some (Node ND_NUM None None 0)) (Some x) 0)"
    by simp
qed

theorem parser_tree_invariant_witness:
  "expr \<lparr>user_input = ''+-5'',
      token = [new_token TK_RESERVED 1 1, (new_token TK_NUM 2 1)\<lparr>val := 5\<rparr>, new_token TK_EOF 3 0]\<rparr> =
     Inr (Node ND_SUB (Some (Node ND_NUM None None 0)) (Some (Node ND_NUM None None 5)) 0,
          \<lparr>user_input = ''+-5'', token = [new_token TK_EOF 3 0]\<rparr>) \<and>
   wf_node (Node ND_SUB (Some (Node ND_NUM None None 0)) (Some (Node ND_NUM None None 5)) 0) \<and>
   \<not> mismatch ''+-5'' (new_token TK_RESERVED 0 1) ''+'' \<and>
   unary \<lparr>user_input = ''+-5'',
      token = [new_token TK_RESERVED 0 1, (new_token TK_NUM 2 1)\<lparr>val := 5\<rparr>, new_token TK_EOF 3 0]\<rparr> =
     Inr (Node ND_NUM None None 5, \<lparr>user_input = ''+-5'', token = [new_token TK_EOF 3 0]\<rparr>) \<and>
   \<not> mismatch ''+-5'' (new_token TK_RESERVED 1 1) ''-'' \<and>
   primary \<lparr>user_input = ''+-5'',
      token = [(new_token TK_NUM 2 1)\<lparr>val := 5\<rparr>, new_token TK_EOF 3 0]\<rparr> =
     Inr (Node ND_NUM None None 5, \<lparr>user_input = ''+-5'', token = [new_token TK_EOF 3 0]\<rparr>)"
  using parser_tree_invariant [of
      "\<lparr>user_input = ''+-5'',
        token = [new_token TK_RESERVED 1 1, (new_token TK_NUM 2 1)\<lparr>val := 5\<rparr>, new_token TK_EOF 3 0]\<rparr>"
      "Node ND_SUB (Some (Node ND_NUM None None 0)) (Some (Node ND_NUM None None 5)) 0"
      "\<lparr>user_input = ''+-5'', token = [new_token TK_EOF 3 0]\<rparr>"
      "''+-5''" "new_token TK_RESERVED 0 1"
      "[(new_token TK_NUM 2 1)\<lparr>val := 5\<rparr>, new_token TK_EOF 3 0]"
      "new_token TK_RESERVED 1 1"
      "[(new_token TK_NUM 2 1)\<lparr>val := 5\<rparr>, new_token TK_EOF 3 0]"
      "Node ND_NUM None None 5"
      "\<lparr>user_input = ''+-5'', token = [new_token TK_EOF 3 0]\<rparr>"]
  by (simp add: parser_simps cursor_defs new_token_def cong: bind_weak_cong)

section \<open>The parser and the grammar\<close>

text \<open>
The global state with the cursor on a token list.
\<close>

abbreviation cursor_on :: "string \<Rightarrow> Token list \<Rightarrow> globals" where
  "cursor_on inp toks \<equiv> \<lparr>user_input = inp, token = toks\<rparr>"

lemma is_op_unique: "is_op inp t a \<Longrightarrow> is_op inp t b \<Longrightarrow> a = b"
  by (auto simp: is_op_def mismatch_def memcmp_def)

lemma is_op_kind: "is_op inp t a \<Longrightarrow> kind t = TK_RESERVED"
  by (auto simp: is_op_def mismatch_def)

lemma consume_is_op: "is_op inp t op \<Longrightarrow> consume op (cursor_on inp (t # ts)) = Inr (True, cursor_on inp ts)"
  by (simp add: consume_def is_op_def)

lemma consume_not_op: "\<not> is_op inp t op \<Longrightarrow> consume op (cursor_on inp (t # ts)) = Inr (False, cursor_on inp (t # ts))"
  by (simp add: consume_def is_op_def)

lemma consume_other:
  assumes "is_op inp t a" and "a \<noteq> op"
  shows "consume op (cursor_on inp (t # ts)) = Inr (False, cursor_on inp (t # ts))"
proof -
  have "\<not> is_op inp t op" using is_op_unique [OF assms(1)] assms(2) by blast
  then show ?thesis by (rule consume_not_op)
qed

text \<open>
  A loop of the parser on an operator of its level, and on a token that is none: it
  parses the right operand and goes round again, or it returns its tree.
\<close>

lemma equality_loop_step:
  assumes "is_op inp t (op_text op)" and "op \<in> {Op_eq, Op_ne}"
  shows "equality_loop n (cursor_on inp (t # ts)) =
           bind (relational (cursor_on inp ts)) (\<lambda>(r, g). equality_loop (binary_node op n r) g)"
  using assms
  by (subst equality_loop.simps)
     (auto simp: consume_is_op consume_other [OF assms(1)] binary_node_def op_text_def)

lemma equality_loop_stop:
  assumes "\<forall>op \<in> {''=='', ''!=''}. \<not> is_op inp t op"
  shows "equality_loop n (cursor_on inp (t # ts)) = Inr (n, cursor_on inp (t # ts))"
  using assms
  by (subst equality_loop.simps) (simp add: consume_not_op)

lemma relational_loop_step:
  assumes "is_op inp t (op_text op)" and "op \<in> {Op_lt, Op_le, Op_gt, Op_ge}"
  shows "relational_loop n (cursor_on inp (t # ts)) =
           bind (add (cursor_on inp ts)) (\<lambda>(r, g). relational_loop (binary_node op n r) g)"
  using assms
  by (subst relational_loop.simps)
     (auto simp: consume_is_op consume_other [OF assms(1)] binary_node_def op_text_def)

lemma relational_loop_stop:
  assumes "\<forall>op \<in> {''<'', ''<='', ''>'', ''>=''}. \<not> is_op inp t op"
  shows "relational_loop n (cursor_on inp (t # ts)) = Inr (n, cursor_on inp (t # ts))"
  using assms
  by (subst relational_loop.simps) (simp add: consume_not_op)

lemma add_loop_step:
  assumes "is_op inp t (op_text op)" and "op \<in> {Op_add, Op_sub}"
  shows "add_loop n (cursor_on inp (t # ts)) =
           bind (mul (cursor_on inp ts)) (\<lambda>(r, g). add_loop (binary_node op n r) g)"
  using assms
  by (subst add_loop.simps)
     (auto simp: consume_is_op consume_other [OF assms(1)] binary_node_def op_text_def)

lemma add_loop_stop:
  assumes "\<forall>op \<in> {''+'', ''-''}. \<not> is_op inp t op"
  shows "add_loop n (cursor_on inp (t # ts)) = Inr (n, cursor_on inp (t # ts))"
  using assms
  by (subst add_loop.simps) (simp add: consume_not_op)

lemma mul_loop_step:
  assumes "is_op inp t (op_text op)" and "op \<in> {Op_mul, Op_div}"
  shows "mul_loop n (cursor_on inp (t # ts)) =
           bind (unary (cursor_on inp ts)) (\<lambda>(r, g). mul_loop (binary_node op n r) g)"
  using assms
  by (subst mul_loop.simps)
     (auto simp: consume_is_op consume_other [OF assms(1)] binary_node_def op_text_def)

lemma mul_loop_stop:
  assumes "\<forall>op \<in> {''*'', ''/''}. \<not> is_op inp t op"
  shows "mul_loop n (cursor_on inp (t # ts)) = Inr (n, cursor_on inp (t # ts))"
  using assms
  by (subst mul_loop.simps) (simp add: consume_not_op)

text \<open>
  The parsing function of a rule, the loop that continues it, and the operators that
  bind tighter than the rule and so may not follow an instance of it.
\<close>

definition parse_at :: "rule \<Rightarrow> globals \<Rightarrow> abort + Node \<times> globals" where
  "parse_at lvl g =
     (case lvl of Expr \<Rightarrow> expr g | Equality \<Rightarrow> equality g | Relational \<Rightarrow> relational g
      | Add \<Rightarrow> add g | Mul \<Rightarrow> mul g | Unary \<Rightarrow> unary g | Primary \<Rightarrow> primary g)"

definition continue_at :: "rule \<Rightarrow> Node \<Rightarrow> globals \<Rightarrow> abort + Node \<times> globals" where
  "continue_at lvl n g =
     (case lvl of Expr \<Rightarrow> equality_loop n g | Equality \<Rightarrow> equality_loop n g
      | Relational \<Rightarrow> relational_loop n g | Add \<Rightarrow> add_loop n g | Mul \<Rightarrow> mul_loop n g
      | Unary \<Rightarrow> Inr (n, g) | Primary \<Rightarrow> Inr (n, g))"

definition tighter :: "rule \<Rightarrow> string set" where
  "tighter lvl =
     (case lvl of
        Expr \<Rightarrow> {''<'', ''<='', ''>'', ''>='', ''+'', ''-'', ''*'', ''/''}
      | Equality \<Rightarrow> {''<'', ''<='', ''>'', ''>='', ''+'', ''-'', ''*'', ''/''}
      | Relational \<Rightarrow> {''+'', ''-'', ''*'', ''/''}
      | Add \<Rightarrow> {''*'', ''/''}
      | Mul \<Rightarrow> {}
      | Unary \<Rightarrow> {}
      | Primary \<Rightarrow> {})"

lemma primary_first:
  assumes "derives inp Primary ts e"
  shows "\<exists>t0 ts'. ts = t0 # ts' \<and> \<not> is_op inp t0 ''+'' \<and> \<not> is_op inp t0 ''-''"
  using assms
proof (cases rule: derives.cases)
  case (primary_number t)
  then show ?thesis using is_op_kind [of inp t] by auto
next
  case (primary_paren l ts' r)
  then show ?thesis using is_op_unique [of inp l "''(''"] by auto
qed

lemma not_tighter:
  "is_op inp t op \<Longrightarrow> op \<notin> S \<Longrightarrow> \<forall>op' \<in> S. \<not> is_op inp t op'"
  using is_op_unique [of inp t op] by blast

text \<open>
  The parser follows the grammar. On an instance of a rule, followed by a token that is
  no operator of a tighter level, the parsing function of the rule behaves as its loop,
  entered behind the instance with the tree of the instance.
\<close>

lemma derives_parse:
  "derives inp lvl ts e \<Longrightarrow> \<forall>x \<in> set ts. lexed inp x \<Longrightarrow> \<forall>op \<in> tighter lvl. \<not> is_op inp t op \<Longrightarrow>
   parse_at lvl (cursor_on inp (ts @ t # rs)) = continue_at lvl (norm e) (cursor_on inp (t # rs))"
proof (induction arbitrary: t rs rule: derives.induct)
  case (expr ts e)
  then show ?case
    by (simp add: parse_at_def continue_at_def tighter_def expr.simps)
next
  case (equality_operand ts e)
  from equality_operand.prems
  have "relational (cursor_on inp (ts @ t # rs)) = relational_loop (norm e) (cursor_on inp (t # rs))"
    using equality_operand.IH [of t rs] by (simp add: parse_at_def continue_at_def tighter_def)
  moreover have "relational_loop (norm e) (cursor_on inp (t # rs)) = Inr (norm e, cursor_on inp (t # rs))"
    using equality_operand.prems by (intro relational_loop_stop) (simp add: tighter_def)
  ultimately show ?case
    by (simp add: parse_at_def continue_at_def equality.simps)
next
  case (equality_operator ts a t0 op us b)
  have "\<forall>op' \<in> tighter Equality. \<not> is_op inp t0 op'"
    using equality_operator.hyps(2,3) by (intro not_tighter [of inp t0 "op_text op"]) (auto simp: tighter_def op_text_def)
  with equality_operator.IH(1) [of t0 "us @ t # rs"] equality_operator.prems
  have "equality (cursor_on inp (ts @ t0 # us @ t # rs)) = equality_loop (norm a) (cursor_on inp (t0 # us @ t # rs))"
    by (simp add: parse_at_def continue_at_def)
  also have "\<dots> = bind (relational (cursor_on inp (us @ t # rs)))
      (\<lambda>(r, g). equality_loop (binary_node op (norm a) r) g)"
    using equality_operator.hyps(2,3) by (rule equality_loop_step)
  also have "relational (cursor_on inp (us @ t # rs)) = relational_loop (norm b) (cursor_on inp (t # rs))"
    using equality_operator.IH(2) [of t rs] equality_operator.prems
    by (simp add: parse_at_def continue_at_def tighter_def)
  also have "relational_loop (norm b) (cursor_on inp (t # rs)) = Inr (norm b, cursor_on inp (t # rs))"
    using equality_operator.prems by (intro relational_loop_stop) (simp add: tighter_def)
  finally show ?case
    by (simp add: parse_at_def continue_at_def)
next
  case (relational_operand ts e)
  from relational_operand.prems
  have "add (cursor_on inp (ts @ t # rs)) = add_loop (norm e) (cursor_on inp (t # rs))"
    using relational_operand.IH [of t rs] by (simp add: parse_at_def continue_at_def tighter_def)
  moreover have "add_loop (norm e) (cursor_on inp (t # rs)) = Inr (norm e, cursor_on inp (t # rs))"
    using relational_operand.prems by (intro add_loop_stop) (simp add: tighter_def)
  ultimately show ?case
    by (simp add: parse_at_def continue_at_def relational.simps)
next
  case (relational_operator ts a t0 op us b)
  have "\<forall>op' \<in> tighter Relational. \<not> is_op inp t0 op'"
    using relational_operator.hyps(2,3) by (intro not_tighter [of inp t0 "op_text op"]) (auto simp: tighter_def op_text_def)
  with relational_operator.IH(1) [of t0 "us @ t # rs"] relational_operator.prems
  have "relational (cursor_on inp (ts @ t0 # us @ t # rs)) = relational_loop (norm a) (cursor_on inp (t0 # us @ t # rs))"
    by (simp add: parse_at_def continue_at_def)
  also have "\<dots> = bind (add (cursor_on inp (us @ t # rs)))
      (\<lambda>(r, g). relational_loop (binary_node op (norm a) r) g)"
    using relational_operator.hyps(2,3) by (rule relational_loop_step)
  also have "add (cursor_on inp (us @ t # rs)) = add_loop (norm b) (cursor_on inp (t # rs))"
    using relational_operator.IH(2) [of t rs] relational_operator.prems
    by (simp add: parse_at_def continue_at_def tighter_def)
  also have "add_loop (norm b) (cursor_on inp (t # rs)) = Inr (norm b, cursor_on inp (t # rs))"
    using relational_operator.prems by (intro add_loop_stop) (simp add: tighter_def)
  finally show ?case
    by (simp add: parse_at_def continue_at_def)
next
  case (add_operand ts e)
  from add_operand.prems
  have "mul (cursor_on inp (ts @ t # rs)) = mul_loop (norm e) (cursor_on inp (t # rs))"
    using add_operand.IH [of t rs] by (simp add: parse_at_def continue_at_def tighter_def)
  moreover have "mul_loop (norm e) (cursor_on inp (t # rs)) = Inr (norm e, cursor_on inp (t # rs))"
    using add_operand.prems by (intro mul_loop_stop) (simp add: tighter_def)
  ultimately show ?case
    by (simp add: parse_at_def continue_at_def add.simps)
next
  case (add_operator ts a t0 op us b)
  have "\<forall>op' \<in> tighter Add. \<not> is_op inp t0 op'"
    using add_operator.hyps(2,3) by (intro not_tighter [of inp t0 "op_text op"]) (auto simp: tighter_def op_text_def)
  with add_operator.IH(1) [of t0 "us @ t # rs"] add_operator.prems
  have "add (cursor_on inp (ts @ t0 # us @ t # rs)) = add_loop (norm a) (cursor_on inp (t0 # us @ t # rs))"
    by (simp add: parse_at_def continue_at_def)
  also have "\<dots> = bind (mul (cursor_on inp (us @ t # rs)))
      (\<lambda>(r, g). add_loop (binary_node op (norm a) r) g)"
    using add_operator.hyps(2,3) by (rule add_loop_step)
  also have "mul (cursor_on inp (us @ t # rs)) = mul_loop (norm b) (cursor_on inp (t # rs))"
    using add_operator.IH(2) [of t rs] add_operator.prems
    by (simp add: parse_at_def continue_at_def tighter_def)
  also have "mul_loop (norm b) (cursor_on inp (t # rs)) = Inr (norm b, cursor_on inp (t # rs))"
    using add_operator.prems by (intro mul_loop_stop) (simp add: tighter_def)
  finally show ?case
    by (simp add: parse_at_def continue_at_def)
next
  case (mul_operand ts e)
  from mul_operand.prems
  have "unary (cursor_on inp (ts @ t # rs)) = Inr (norm e, cursor_on inp (t # rs))"
    using mul_operand.IH [of t rs] by (simp add: parse_at_def continue_at_def tighter_def)
  then show ?case
    by (simp add: parse_at_def continue_at_def mul.simps)
next
  case (mul_operator ts a t0 op us b)
  from mul_operator.IH(1) [of t0 "us @ t # rs"] mul_operator.prems
  have "mul (cursor_on inp (ts @ t0 # us @ t # rs)) = mul_loop (norm a) (cursor_on inp (t0 # us @ t # rs))"
    by (simp add: parse_at_def continue_at_def tighter_def)
  also have "\<dots> = bind (unary (cursor_on inp (us @ t # rs)))
      (\<lambda>(r, g). mul_loop (binary_node op (norm a) r) g)"
    using mul_operator.hyps(2,3) by (rule mul_loop_step)
  also have "unary (cursor_on inp (us @ t # rs)) = Inr (norm b, cursor_on inp (t # rs))"
    using mul_operator.IH(2) [of t rs] mul_operator.prems
    by (simp add: parse_at_def continue_at_def tighter_def)
  finally show ?case
    by (simp add: parse_at_def continue_at_def)
next
  case (unary_plain ts e)
  from primary_first [OF unary_plain.hyps] obtain t0 ts' where ts: "ts = t0 # ts'"
    and n: "\<not> is_op inp t0 ''+''" "\<not> is_op inp t0 ''-''"
    by blast
  from unary_plain.IH [of t rs] unary_plain.prems
  have "primary (cursor_on inp (ts @ t # rs)) = Inr (norm e, cursor_on inp (t # rs))"
    by (simp add: parse_at_def continue_at_def tighter_def)
  with ts n show ?case
    by (simp add: parse_at_def continue_at_def unary.simps [of "cursor_on inp (t0 # ts' @ t # rs)"]
        consume_not_op)
next
  case (unary_sign t0 s ts e)
  from unary_sign.IH [of t rs] unary_sign.prems
  have p: "primary (cursor_on inp (ts @ t # rs)) = Inr (norm e, cursor_on inp (t # rs))"
    by (simp add: parse_at_def continue_at_def tighter_def)
  show ?case
  proof (cases s)
    case Positive
    with unary_sign.hyps(1) p show ?thesis
      by (simp add: parse_at_def continue_at_def unary.simps [of "cursor_on inp (t0 # ts @ t # rs)"]
          consume_is_op sign_text_def)
  next
    case Negative
    with unary_sign.hyps(1) p show ?thesis
      by (simp add: parse_at_def continue_at_def unary.simps [of "cursor_on inp (t0 # ts @ t # rs)"]
          consume_is_op consume_other [of inp t0 "''-''" "''+''"] sign_text_def)
  qed
next
  case (primary_number t0)
  then have "\<not> is_op inp t0 ''(''" using is_op_kind [of inp t0 "''(''"] by auto
  with primary_number show ?case
    by (simp add: parse_at_def continue_at_def primary.simps [of "cursor_on inp (t0 # t # rs)"]
        consume_not_op expect_number_def lexed_def)
next
  case (primary_paren l ts e r)
  have "\<forall>op' \<in> tighter Expr. \<not> is_op inp r op'"
    using primary_paren.hyps(3) by (intro not_tighter [of inp r "'')''"]) (auto simp: tighter_def)
  with primary_paren.IH [of r "t # rs"] primary_paren.prems
  have "expr (cursor_on inp (ts @ r # t # rs)) = equality_loop (norm e) (cursor_on inp (r # t # rs))"
    by (simp add: parse_at_def continue_at_def)
  also have "\<dots> = Inr (norm e, cursor_on inp (r # t # rs))"
    using primary_paren.hyps(3)
    by (intro equality_loop_stop not_tighter [of inp r "'')''"]) auto
  finally have "expr (cursor_on inp (ts @ r # t # rs)) = Inr (norm e, cursor_on inp (r # t # rs))" .
  with primary_paren.hyps(1,3) show ?case
    by (simp add: parse_at_def continue_at_def primary.simps [of "cursor_on inp (l # ts @ r # t # rs)"]
        consume_is_op expect_def is_op_def)
qed

text \<open>
  The parser on the tokens of an expression, followed by a token that is not a binary
  operator: it returns the tree of the expression with the cursor on that token.
\<close>

lemma expr_derives:
  assumes "derives inp Expr ts e" and "\<forall>x \<in> set ts. lexed inp x"
    and "\<forall>op \<in> binary_operators. \<not> is_op inp t op"
  shows "expr (cursor_on inp (ts @ t # rs)) = Inr (norm e, cursor_on inp (t # rs))"
proof -
  from assms(3) have "\<forall>op \<in> tighter Expr. \<not> is_op inp t op"
    by (simp add: tighter_def binary_operators_def)
  with derives_parse [OF assms(1,2), of t rs]
  have "expr (cursor_on inp (ts @ t # rs)) = equality_loop (norm e) (cursor_on inp (t # rs))"
    by (simp add: parse_at_def continue_at_def)
  also have "\<dots> = Inr (norm e, cursor_on inp (t # rs))"
    using assms(3) by (intro equality_loop_stop) (simp add: binary_operators_def)
  finally show ?thesis .
qed

lemma derives_number:
  assumes "kind t = TK_NUM" and "decimal (lexeme inp t) = d"
  shows "derives inp Primary [t] (Number d)" "derives inp Unary [t] (Number d)"
    "derives inp Mul [t] (Number d)" "derives inp Add [t] (Number d)"
    "derives inp Relational [t] (Number d)" "derives inp Equality [t] (Number d)"
    "derives inp Expr [t] (Number d)"
proof -
  from derives.primary_number [OF assms(1), of inp] assms(2)
  show p: "derives inp Primary [t] (Number d)" by simp
  then show u: "derives inp Unary [t] (Number d)" by (rule derives.unary_plain)
  then show m: "derives inp Mul [t] (Number d)" by (rule derives.mul_operand)
  then show a: "derives inp Add [t] (Number d)" by (rule derives.add_operand)
  then show r: "derives inp Relational [t] (Number d)" by (rule derives.relational_operand)
  then show e: "derives inp Equality [t] (Number d)" by (rule derives.equality_operand)
  then show "derives inp Expr [t] (Number d)" by (rule derives.expr)
qed

lemma relational_binary:
  assumes "derives inp Relational tx x" and "derives inp Add ty y"
    and "\<forall>u \<in> set tx \<union> set ty. lexed inp u"
    and "is_op inp c (op_text op)" and "op \<in> {Op_lt, Op_le, Op_gt, Op_ge}"
    and "\<forall>s \<in> binary_operators - {''=='', ''!=''}. \<not> is_op inp t s"
  shows "relational (cursor_on inp (tx @ c # ty @ t # rs)) =
           Inr (binary_node op (norm x) (norm y), cursor_on inp (t # rs))"
proof -
  have d: "derives inp Relational (tx @ c # ty) (Binary op x y)"
    using assms(1,4,5,2) by (rule derives.relational_operator)
  have k: "\<forall>s \<in> tighter Relational. \<not> is_op inp t s"
    using assms(6) by (simp add: tighter_def binary_operators_def)
  have lx: "\<forall>u \<in> set (tx @ c # ty). lexed inp u"
    using assms(3) is_op_kind [OF assms(4)] by (auto simp: lexed_def)
  from derives_parse [OF d lx k, of rs]
  have "relational (cursor_on inp (tx @ c # ty @ t # rs)) =
      relational_loop (binary_node op (norm x) (norm y)) (cursor_on inp (t # rs))"
    by (simp add: parse_at_def continue_at_def)
  also have "\<dots> = Inr (binary_node op (norm x) (norm y), cursor_on inp (t # rs))"
    using assms(6) by (intro relational_loop_stop) (simp add: binary_operators_def)
  finally show ?thesis .
qed

text \<open>
  Claim C4. Let one input hold the comparison \<^verbatim>\<open>a > b\<close> and another the comparison
  \<^verbatim>\<open>b < a\<close>: in each the left operand is an instance of the rule \<^verbatim>\<open>relational\<close>, the
  right operand an instance of the rule \<^verbatim>\<open>add\<close>, and the token behind the comparison is
  not a relational or tighter operator. Then \<^verbatim>\<open>relational\<close> returns the same tree for
  both, the \<^verbatim>\<open>ND_LT\<close> node over \<open>b\<close> and \<open>a\<close>; and the \<^verbatim>\<open>ND_LE\<close> node over \<open>b\<close>
  and \<open>a\<close> for \<^verbatim>\<open>a >= b\<close> and \<^verbatim>\<open>b <= a\<close>. The kind of a node is one of nine; there
  is none for greater-than.
\<close>

theorem greater_than_normalized:
  assumes "derives inp Relational ta a" and "derives inp Add tb b"
    and "\<forall>x \<in> set ta \<union> set tb. lexed inp x"
    and "\<forall>s \<in> binary_operators - {''=='', ''!=''}. \<not> is_op inp t s"
    and "derives inp' Add ta' a" and "derives inp' Relational tb' b"
    and "\<forall>x \<in> set ta' \<union> set tb'. lexed inp' x"
    and "\<forall>s \<in> binary_operators - {''=='', ''!=''}. \<not> is_op inp' t' s"
  shows "(is_op inp c ''>'' \<and> is_op inp' c' ''<'' \<longrightarrow>
            relational (cursor_on inp (ta @ c # tb @ t # rs)) =
              Inr (Node ND_LT (Some (norm b)) (Some (norm a)) 0, cursor_on inp (t # rs)) \<and>
            relational (cursor_on inp' (tb' @ c' # ta' @ t' # rs')) =
              Inr (Node ND_LT (Some (norm b)) (Some (norm a)) 0, cursor_on inp' (t' # rs'))) \<and>
         (is_op inp c ''>='' \<and> is_op inp' c' ''<='' \<longrightarrow>
            relational (cursor_on inp (ta @ c # tb @ t # rs)) =
              Inr (Node ND_LE (Some (norm b)) (Some (norm a)) 0, cursor_on inp (t # rs)) \<and>
            relational (cursor_on inp' (tb' @ c' # ta' @ t' # rs')) =
              Inr (Node ND_LE (Some (norm b)) (Some (norm a)) 0, cursor_on inp' (t' # rs'))) \<and>
         node_kind n \<in> {ND_ADD, ND_SUB, ND_MUL, ND_DIV, ND_EQ, ND_NE, ND_LT, ND_LE, ND_NUM}"
proof (intro conjI impI)
  assume "is_op inp c ''>'' \<and> is_op inp' c' ''<''"
  then have c: "is_op inp c (op_text Op_gt)" "is_op inp' c' (op_text Op_lt)"
    by (simp_all add: op_text_def)
  from relational_binary [OF assms(1,2,3) c(1) _ assms(4), of rs]
  show "relational (cursor_on inp (ta @ c # tb @ t # rs)) =
      Inr (Node ND_LT (Some (norm b)) (Some (norm a)) 0, cursor_on inp (t # rs))"
    by (simp add: binary_node_def new_binary_def new_node_def)
  have "\<forall>x \<in> set tb' \<union> set ta'. lexed inp' x" using assms(7) by auto
  from relational_binary [OF assms(6,5) this c(2) _ assms(8), of rs']
  show "relational (cursor_on inp' (tb' @ c' # ta' @ t' # rs')) =
      Inr (Node ND_LT (Some (norm b)) (Some (norm a)) 0, cursor_on inp' (t' # rs'))"
    by (simp add: binary_node_def new_binary_def new_node_def)
next
  assume "is_op inp c ''>='' \<and> is_op inp' c' ''<=''"
  then have c: "is_op inp c (op_text Op_ge)" "is_op inp' c' (op_text Op_le)"
    by (simp_all add: op_text_def)
  from relational_binary [OF assms(1,2,3) c(1) _ assms(4), of rs]
  show "relational (cursor_on inp (ta @ c # tb @ t # rs)) =
      Inr (Node ND_LE (Some (norm b)) (Some (norm a)) 0, cursor_on inp (t # rs))"
    by (simp add: binary_node_def new_binary_def new_node_def)
  have "\<forall>x \<in> set tb' \<union> set ta'. lexed inp' x" using assms(7) by auto
  from relational_binary [OF assms(6,5) this c(2) _ assms(8), of rs']
  show "relational (cursor_on inp' (tb' @ c' # ta' @ t' # rs')) =
      Inr (Node ND_LE (Some (norm b)) (Some (norm a)) 0, cursor_on inp' (t' # rs'))"
    by (simp add: binary_node_def new_binary_def new_node_def)
next
  show "node_kind n \<in> {ND_ADD, ND_SUB, ND_MUL, ND_DIV, ND_EQ, ND_NE, ND_LT, ND_LE, ND_NUM}"
    by (cases "node_kind n") simp_all
qed

theorem greater_than_normalized_witness:
  "relational (cursor_on ''2>1'' [\<lparr>kind = TK_NUM, val = 2, str = 0, len = 1\<rparr>,
       \<lparr>kind = TK_RESERVED, val = 0, str = 1, len = 1\<rparr>,
       \<lparr>kind = TK_NUM, val = 1, str = 2, len = 1\<rparr>,
       \<lparr>kind = TK_EOF, val = 0, str = 3, len = 0\<rparr>]) =
     Inr (Node ND_LT (Some (Node ND_NUM None None 1)) (Some (Node ND_NUM None None 2)) 0,
          cursor_on ''2>1'' [\<lparr>kind = TK_EOF, val = 0, str = 3, len = 0\<rparr>]) \<and>
   relational (cursor_on ''1<2'' [\<lparr>kind = TK_NUM, val = 1, str = 0, len = 1\<rparr>,
       \<lparr>kind = TK_RESERVED, val = 0, str = 1, len = 1\<rparr>,
       \<lparr>kind = TK_NUM, val = 2, str = 2, len = 1\<rparr>,
       \<lparr>kind = TK_EOF, val = 0, str = 3, len = 0\<rparr>]) =
     Inr (Node ND_LT (Some (Node ND_NUM None None 1)) (Some (Node ND_NUM None None 2)) 0,
          cursor_on ''1<2'' [\<lparr>kind = TK_EOF, val = 0, str = 3, len = 0\<rparr>]) \<and>
   relational (cursor_on ''2>=1'' [\<lparr>kind = TK_NUM, val = 2, str = 0, len = 1\<rparr>,
       \<lparr>kind = TK_RESERVED, val = 0, str = 1, len = 2\<rparr>,
       \<lparr>kind = TK_NUM, val = 1, str = 3, len = 1\<rparr>,
       \<lparr>kind = TK_EOF, val = 0, str = 4, len = 0\<rparr>]) =
     Inr (Node ND_LE (Some (Node ND_NUM None None 1)) (Some (Node ND_NUM None None 2)) 0,
          cursor_on ''2>=1'' [\<lparr>kind = TK_EOF, val = 0, str = 4, len = 0\<rparr>]) \<and>
   relational (cursor_on ''1<=2'' [\<lparr>kind = TK_NUM, val = 1, str = 0, len = 1\<rparr>,
       \<lparr>kind = TK_RESERVED, val = 0, str = 1, len = 2\<rparr>,
       \<lparr>kind = TK_NUM, val = 2, str = 3, len = 1\<rparr>,
       \<lparr>kind = TK_EOF, val = 0, str = 4, len = 0\<rparr>]) =
     Inr (Node ND_LE (Some (Node ND_NUM None None 1)) (Some (Node ND_NUM None None 2)) 0,
          cursor_on ''1<=2'' [\<lparr>kind = TK_EOF, val = 0, str = 4, len = 0\<rparr>])"
proof -
  let ?n0 = "\<lambda>v. \<lparr>kind = TK_NUM, val = v, str = 0, len = 1\<rparr>"
  let ?n2 = "\<lambda>v. \<lparr>kind = TK_NUM, val = v, str = 2, len = 1\<rparr>"
  let ?n3 = "\<lambda>v. \<lparr>kind = TK_NUM, val = v, str = 3, len = 1\<rparr>"
  let ?c1 = "\<lparr>kind = TK_RESERVED, val = 0, str = 1, len = 1\<rparr>"
  let ?c2 = "\<lparr>kind = TK_RESERVED, val = 0, str = 1, len = 2\<rparr>"
  let ?e3 = "\<lparr>kind = TK_EOF, val = 0, str = 3, len = 0\<rparr>"
  let ?e4 = "\<lparr>kind = TK_EOF, val = 0, str = 4, len = 0\<rparr>"
  note ev = lexeme_def decimal_def digit_val_def
  note lx = lexed_def literal_def LONG_MAX_def ev
  note io = is_op_def mismatch_def memcmp_def binary_operators_def
  have a1: "derives ''2>1'' Relational [?n0 2] (Number 2)" by (rule derives_number) (simp_all add: ev)
  have b1: "derives ''2>1'' Add [?n2 1] (Number 1)" by (rule derives_number) (simp_all add: ev)
  have a2: "derives ''1<2'' Add [?n2 2] (Number 2)" by (rule derives_number) (simp_all add: ev)
  have b2: "derives ''1<2'' Relational [?n0 1] (Number 1)" by (rule derives_number) (simp_all add: ev)
  have l1: "\<forall>x \<in> set [?n0 2] \<union> set [?n2 1]. lexed ''2>1'' x" by (simp add: lx)
  have l2: "\<forall>x \<in> set [?n2 2] \<union> set [?n0 1]. lexed ''1<2'' x" by (simp add: lx)
  have s1: "\<forall>s \<in> binary_operators - {''=='', ''!=''}. \<not> is_op ''2>1'' ?e3 s" by (simp add: io)
  have s2: "\<forall>s \<in> binary_operators - {''=='', ''!=''}. \<not> is_op ''1<2'' ?e3 s" by (simp add: io)
  have o1: "is_op ''2>1'' ?c1 ''>'' \<and> is_op ''1<2'' ?c1 ''<''" by (simp add: io)
  from greater_than_normalized [OF a1 b1 l1 s1 a2 b2 l2 s2, of ?c1 ?c1 "[]" "[]"] o1
  have r1: "relational (cursor_on ''2>1'' [?n0 2, ?c1, ?n2 1, ?e3]) =
        Inr (Node ND_LT (Some (Node ND_NUM None None 1)) (Some (Node ND_NUM None None 2)) 0,
             cursor_on ''2>1'' [?e3])"
    and r2: "relational (cursor_on ''1<2'' [?n0 1, ?c1, ?n2 2, ?e3]) =
        Inr (Node ND_LT (Some (Node ND_NUM None None 1)) (Some (Node ND_NUM None None 2)) 0,
             cursor_on ''1<2'' [?e3])"
    by (simp_all add: new_num_def new_node_def literal_def LONG_MAX_def)
  have a3: "derives ''2>=1'' Relational [?n0 2] (Number 2)" by (rule derives_number) (simp_all add: ev)
  have b3: "derives ''2>=1'' Add [?n3 1] (Number 1)" by (rule derives_number) (simp_all add: ev)
  have a4: "derives ''1<=2'' Add [?n3 2] (Number 2)" by (rule derives_number) (simp_all add: ev)
  have b4: "derives ''1<=2'' Relational [?n0 1] (Number 1)" by (rule derives_number) (simp_all add: ev)
  have l3: "\<forall>x \<in> set [?n0 2] \<union> set [?n3 1]. lexed ''2>=1'' x" by (simp add: lx)
  have l4: "\<forall>x \<in> set [?n3 2] \<union> set [?n0 1]. lexed ''1<=2'' x" by (simp add: lx)
  have s3: "\<forall>s \<in> binary_operators - {''=='', ''!=''}. \<not> is_op ''2>=1'' ?e4 s" by (simp add: io)
  have s4: "\<forall>s \<in> binary_operators - {''=='', ''!=''}. \<not> is_op ''1<=2'' ?e4 s" by (simp add: io)
  have o2: "is_op ''2>=1'' ?c2 ''>='' \<and> is_op ''1<=2'' ?c2 ''<=''" by (simp add: io)
  from greater_than_normalized [OF a3 b3 l3 s3 a4 b4 l4 s4, of ?c2 ?c2 "[]" "[]"] o2
  have r3: "relational (cursor_on ''2>=1'' [?n0 2, ?c2, ?n3 1, ?e4]) =
        Inr (Node ND_LE (Some (Node ND_NUM None None 1)) (Some (Node ND_NUM None None 2)) 0,
             cursor_on ''2>=1'' [?e4])"
    and r4: "relational (cursor_on ''1<=2'' [?n0 1, ?c2, ?n3 2, ?e4]) =
        Inr (Node ND_LE (Some (Node ND_NUM None None 1)) (Some (Node ND_NUM None None 2)) 0,
             cursor_on ''1<=2'' [?e4])"
    by (simp_all add: new_num_def new_node_def literal_def LONG_MAX_def)
  from r1 r2 r3 r4 show ?thesis by simp
qed

section \<open>The emitted code on the target machine\<close>

lemma sint64_bounds: "- 9223372036854775808 \<le> sint (a :: 64 word) \<and> sint a < 9223372036854775808"
  using sint_ge [of a] sint_lt [of a] by simp

lemma sint_sub64:
  "sint (a - b :: 64 word) = (sint a - sint b + 9223372036854775808) mod 18446744073709551616 - 9223372036854775808"
  by (simp add: sint_word_ariths signed_take_bit_eq_take_bit_shift take_bit_eq_mod)

lemma lt_flags: "cond_holds LT (cmp_flags a b) \<longleftrightarrow> sint a < sint b"
proof -
  let ?d = "sint a - sint b"
  have b: "- 18446744073709551616 < ?d" "?d < 18446744073709551616"
    using sint64_bounds [of a] sint64_bounds [of b] by auto
  consider "?d < - 9223372036854775808" | "- 9223372036854775808 \<le> ?d \<and> ?d < 9223372036854775808" | "9223372036854775808 \<le> ?d"
    by linarith
  then show ?thesis
  proof cases
    case 1
    then have "(?d + 9223372036854775808) mod 18446744073709551616 = ?d + 9223372036854775808 + 18446744073709551616"
      using b by (intro int_mod_pos_eq [where q = "-1"]) auto
    then show ?thesis using 1 b
      by (auto simp: cond_holds_def cmp_flags_def sint_sub64)
  next
    case 2
    then have "(?d + 9223372036854775808) mod 18446744073709551616 = ?d + 9223372036854775808"
      by (intro mod_pos_pos_trivial) auto
    then show ?thesis using 2
      by (auto simp: cond_holds_def cmp_flags_def sint_sub64)
  next
    case 3
    then have "(?d + 9223372036854775808) mod 18446744073709551616 = ?d + 9223372036854775808 - 18446744073709551616"
      using b by (intro int_mod_pos_eq [where q = "1"]) auto
    then show ?thesis using 3 b
      by (auto simp: cond_holds_def cmp_flags_def sint_sub64)
  qed
qed

lemma eq_flags: "cond_holds EQ (cmp_flags a b) \<longleftrightarrow> a = b"
  by (simp add: cond_holds_def cmp_flags_def)

lemma ne_flags: "cond_holds NE (cmp_flags a b) \<longleftrightarrow> a \<noteq> b"
  by (simp add: cond_holds_def cmp_flags_def)

lemma le_flags: "cond_holds LE (cmp_flags a b) \<longleftrightarrow> sint a \<le> sint b"
proof -
  have "cond_holds LE (cmp_flags a b) \<longleftrightarrow> cond_holds EQ (cmp_flags a b) \<or> cond_holds LT (cmp_flags a b)"
    by (simp add: cond_holds_def)
  also have "\<dots> \<longleftrightarrow> a = b \<or> sint a < sint b"
    by (simp only: eq_flags lt_flags)
  also have "\<dots> \<longleftrightarrow> sint a \<le> sint b"
    by (auto simp: order_le_less intro: signed_word_eqI)
  finally show ?thesis .
qed

lemma exec_append:
  "exec (xs @ ys) m = (case exec xs m of None \<Rightarrow> None | Some m' \<Rightarrow> exec ys m')"
  by (induction xs arbitrary: m) (auto split: option.splits)

lemma exec_gen_op:
  assumes "k \<noteq> ND_NUM" and "stack m = b # a # stk"
  shows "\<exists>m'. exec ([LDR_post X1, LDR_post X0] @ gen_op k @ [STR_pre X0]) m = Some m' \<and>
           stack m' = binop_value k a b # stk"
  using assms
  by (cases k)
     (simp_all add: gen_op_def effect_def set_reg_def binop_value_def
        eq_flags ne_flags lt_flags le_flags)

text \<open>
The code of a well-formed tree pushes the value of the tree.
\<close>

lemma exec_gen:
  "wf_node n \<Longrightarrow>
     \<exists>code. gen n = Inr code \<and>
       (\<forall>m. \<exists>m'. exec code m = Some m' \<and> stack m' = node_value n # stack m)"
proof (induction n rule: wf_node.induct)
  case (1 k l r v)
  show ?case
  proof (cases "k = ND_NUM")
    case True
    then show ?thesis by (simp add: effect_def set_reg_def)
  next
    case False
    with "1.prems" obtain a b where l: "l = Some a" and r: "r = Some b"
      and wa: "wf_node a" and wb: "wf_node b"
      by (auto split: option.splits)
    from "1.IH"(1) [OF False l wa] obtain ca where ca: "gen a = Inr ca"
      and ea: "\<And>m. \<exists>m'. exec ca m = Some m' \<and> stack m' = node_value a # stack m"
      by blast
    from "1.IH"(2) [OF False r wb] obtain cb where cb: "gen b = Inr cb"
      and eb: "\<And>m. \<exists>m'. exec cb m = Some m' \<and> stack m' = node_value b # stack m"
      by blast
    let ?tail = "[LDR_post X1, LDR_post X0] @ gen_op k @ [STR_pre X0]"
    have g: "gen (Node k l r v) = Inr (ca @ cb @ ?tail)"
      using False l r ca cb by simp
    have "\<exists>m'. exec (ca @ cb @ ?tail) m = Some m' \<and>
             stack m' = node_value (Node k l r v) # stack m" for m
    proof -
      from ea obtain m1 where m1: "exec ca m = Some m1" "stack m1 = node_value a # stack m"
        by blast
      from eb obtain m2 where m2: "exec cb m1 = Some m2" "stack m2 = node_value b # stack m1"
        by blast
      from m1 m2 have "stack m2 = node_value b # node_value a # stack m" by simp
      from exec_gen_op [OF False this] obtain m3 where
        "exec ?tail m2 = Some m3" "stack m3 = binop_value k (node_value a) (node_value b) # stack m"
        by blast
      with m1 m2 show ?thesis
        using False l r by (simp add: exec_append)
    qed
    with g show ?thesis by blast
  qed
qed

lemma pushes_append: "pushes (xs @ ys) = pushes xs + pushes ys"
  by (simp add: pushes_def)

lemma pops_append: "pops (xs @ ys) = pops xs + pops ys"
  by (simp add: pops_def)

lemma gen_op_counts: "pushes (gen_op k) = 0 \<and> pops (gen_op k) = 0"
  by (cases k) (simp_all add: gen_op_def pushes_def pops_def)

lemma own_counts:
  "pushes ([LDR_post X1, LDR_post X0] @ gen_op k @ [STR_pre X0]) = 1 \<and>
   pops ([LDR_post X1, LDR_post X0] @ gen_op k @ [STR_pre X0]) = 2"
  using gen_op_counts [of k] by (simp add: pushes_append pops_append) (simp add: pushes_def pops_def)

lemma gen_counts:
  "wf_node n \<Longrightarrow> gen n = Inr code \<Longrightarrow>
     pushes code = pops code + 1 \<and>
     (node_kind n = ND_NUM \<longrightarrow> pushes code = 1 \<and> pops code = 0) \<and>
     (node_kind n \<noteq> ND_NUM \<longrightarrow>
        (\<exists>a b ca cb own. lhs n = Some a \<and> rhs n = Some b \<and> gen a = Inr ca \<and> gen b = Inr cb \<and>
           code = ca @ cb @ own \<and> pops own = 2 \<and> pushes own = 1))"
proof (induction n arbitrary: code rule: wf_node.induct)
  case (1 k l r v)
  show ?case
  proof (cases "k = ND_NUM")
    case True
    with "1.prems" show ?thesis by (auto simp: pushes_def pops_def)
  next
    case False
    with "1.prems"(1) obtain a b where l: "l = Some a" and r: "r = Some b"
      and wa: "wf_node a" and wb: "wf_node b"
      by (auto split: option.splits)
    from exec_gen [OF wa] obtain ca where ca: "gen a = Inr ca" by blast
    from exec_gen [OF wb] obtain cb where cb: "gen b = Inr cb" by blast
    let ?own = "[LDR_post X1, LDR_post X0] @ gen_op k @ [STR_pre X0]"
    from "1.prems"(2) False l r ca cb have code: "code = ca @ cb @ ?own" by simp
    from "1.IH"(1) [OF False l wa ca] have na: "pushes ca = pops ca + 1" by simp
    from "1.IH"(2) [OF False r wb cb] have nb: "pushes cb = pops cb + 1" by simp
    from na nb own_counts [of k] code have "pushes code = pops code + 1"
      by (simp add: pushes_append pops_append)
    moreover from own_counts [of k] l r ca cb code
    have "\<exists>a b ca cb own. lhs (Node k l r v) = Some a \<and> rhs (Node k l r v) = Some b \<and>
        gen a = Inr ca \<and> gen b = Inr cb \<and> code = ca @ cb @ own \<and> pops own = 2 \<and> pushes own = 1"
      by auto
    ultimately show ?thesis using False by simp
  qed
qed

text \<open>
  Claim C9. For every well-formed tree, so for every node of a tree that the parser
  returns, \<^verbatim>\<open>gen\<close> emits code with one push more than pops: a number is one push and no
  pop, and the lines that an operator adds to the code of its two children are two pops and
  one push. Run from any machine state the code meets no fault and leaves the stack one
  value higher, the slots below untouched. The driver's final pop then finds this one
  value, moves it to \<^verbatim>\<open>x0\<close> and leaves the stack as it was.
\<close>

theorem gen_stack_effect:
  assumes "wf_node n"
  shows "\<exists>code. gen n = Inr code \<and>
           pushes code = pops code + 1 \<and>
           (node_kind n = ND_NUM \<longrightarrow> pushes code = 1 \<and> pops code = 0) \<and>
           (node_kind n \<noteq> ND_NUM \<longrightarrow>
              (\<exists>a b ca cb own. lhs n = Some a \<and> rhs n = Some b \<and>
                 gen a = Inr ca \<and> gen b = Inr cb \<and>
                 code = ca @ cb @ own \<and> pops own = 2 \<and> pushes own = 1)) \<and>
           (\<forall>m. \<exists>m' w. exec code m = Some m' \<and> stack m' = w # stack m \<and>
              (\<exists>m''. exec (code @ [LDR_post X0]) m = Some m'' \<and> stack m'' = stack m \<and>
                 regs m'' X0 = w))"
proof -
  from exec_gen [OF assms] obtain code where g: "gen n = Inr code"
    and e: "\<And>m. \<exists>m'. exec code m = Some m' \<and> stack m' = node_value n # stack m"
    by blast
  have "\<exists>m' w. exec code m = Some m' \<and> stack m' = w # stack m \<and>
      (\<exists>m''. exec (code @ [LDR_post X0]) m = Some m'' \<and> stack m'' = stack m \<and> regs m'' X0 = w)"
    for m
  proof -
    from e obtain m' where "exec code m = Some m'" "stack m' = node_value n # stack m"
      by blast
    then show ?thesis
      by (auto simp: exec_append effect_def set_reg_def)
  qed
  with g gen_counts [OF assms g] show ?thesis by blast
qed

theorem gen_stack_effect_witness:
  "wf_node (Node ND_ADD (Some (Node ND_NUM None None 1)) (Some (Node ND_NUM None None 2)) 0) \<and>
   gen (Node ND_ADD (Some (Node ND_NUM None None 1)) (Some (Node ND_NUM None None 2)) 0) =
     Inr [MOV X2 1, STR_pre X2, MOV X2 2, STR_pre X2, LDR_post X1, LDR_post X0, ADD X0 X0 X1,
          STR_pre X0] \<and>
   pushes [MOV X2 1, STR_pre X2, MOV X2 2, STR_pre X2, LDR_post X1, LDR_post X0, ADD X0 X0 X1,
           STR_pre X0] =
   pops [MOV X2 1, STR_pre X2, MOV X2 2, STR_pre X2, LDR_post X1, LDR_post X0, ADD X0 X0 X1,
         STR_pre X0] + 1 \<and>
   (\<forall>m. \<exists>m' w. exec [MOV X2 1, STR_pre X2, MOV X2 2, STR_pre X2, LDR_post X1, LDR_post X0,
                       ADD X0 X0 X1, STR_pre X0] m = Some m' \<and> stack m' = w # stack m)"
proof -
  let ?n = "Node ND_ADD (Some (Node ND_NUM None None 1)) (Some (Node ND_NUM None None 2)) 0"
  let ?c = "[MOV X2 1, STR_pre X2, MOV X2 2, STR_pre X2, LDR_post X1, LDR_post X0, ADD X0 X0 X1,
             STR_pre X0]"
  have w: "wf_node ?n" by simp
  have g: "gen ?n = Inr ?c" by (simp add: gen_op_def)
  from gen_stack_effect [OF w] obtain code where c: "gen ?n = Inr code"
    and p: "pushes code = pops code + 1"
    and e: "\<forall>m. \<exists>m' w. exec code m = Some m' \<and> stack m' = w # stack m"
    by blast
  from c g have "code = ?c" by (simp only: sum.inject)
  with p e have "pushes ?c = pops ?c + 1"
    and "\<forall>m. \<exists>m' w. exec ?c m = Some m' \<and> stack m' = w # stack m"
    by blast+
  with w g show ?thesis by blast
qed

lemma run_lines_exec:
  "list_all assembles xs \<Longrightarrow> exec xs m = Some m' \<Longrightarrow> run_lines (xs @ ys) m = run_lines ys m'"
proof (induction xs arbitrary: m)
  case Nil
  then show ?case by simp
next
  case (Cons i xs)
  then show ?case by (auto simp: step_def effect_def split: option.splits)
qed

lemma run_program:
  assumes "\<exists>m'. exec code m = Some m' \<and> stack m' = w # stack m"
    and "list_all assembles code"
  shows "run ([GLOBL s, LABEL s'] @ code @ [LDR_post X0, RET]) m = Some w"
proof -
  from assms(1) obtain m' where e: "exec code m = Some m'" and s: "stack m' = w # stack m"
    by blast
  from assms(2) have "list_all assembles ([GLOBL s, LABEL s'] @ code @ [LDR_post X0, RET])"
    by (simp add: assembles_def)
  then have "run ([GLOBL s, LABEL s'] @ code @ [LDR_post X0, RET]) m =
      run_lines ([GLOBL s, LABEL s'] @ code @ [LDR_post X0, RET]) m"
    by (simp only: run_def if_True)
  also have "\<dots> = run_lines (code @ [LDR_post X0, RET]) m"
    by (simp add: step_def effect_def assembles_def)
  also have "\<dots> = run_lines [LDR_post X0, RET] m'" using assms(2) e by (rule run_lines_exec)
  also have "\<dots> = Some w" using s by (simp add: step_def effect_def assembles_def set_reg_def)
  finally show ?thesis .
qed

text \<open>
The assembler accepts the code of an expression that has a value and whose literals can be
loaded.
\<close>

lemma assembles_gen_op: "list_all assembles (gen_op k)"
  by (cases k) (simp_all add: gen_op_def assembles_def)

lemma gen_new_num: "gen (new_num v) = Inr [MOV X2 v, STR_pre X2]"
  by (simp add: new_num_def new_node_def)

lemma gen_new_binary:
  "k \<noteq> ND_NUM \<Longrightarrow>
   gen (new_binary k a b) =
     bind (gen a) (\<lambda>ca. bind (gen b) (\<lambda>cb.
       Inr (ca @ cb @ [LDR_post X1, LDR_post X0] @ gen_op k @ [STR_pre X0])))"
  by (simp add: new_binary_def new_node_def)

lemma assembles_binary:
  assumes "k \<noteq> ND_NUM" and "gen (new_binary k a b) = Inr code"
    and "\<And>c. gen a = Inr c \<Longrightarrow> list_all assembles c"
    and "\<And>c. gen b = Inr c \<Longrightarrow> list_all assembles c"
  shows "list_all assembles code"
proof -
  from assms(1,2) obtain ca cb where "gen a = Inr ca" "gen b = Inr cb"
    and "code = ca @ cb @ [LDR_post X1, LDR_post X0] @ gen_op k @ [STR_pre X0]"
    by (auto simp: gen_new_binary elim!: bindE)
  with assms(3,4) assembles_gen_op [of k] show ?thesis
    by (simp add: assembles_def)
qed

lemma mov_immediate_small: "unat w < 2 ^ 16 \<Longrightarrow> mov_immediate w"
  by (simp add: mov_immediate_def wide_immediate_def)

section \<open>The value of the compiled expression\<close>

lemma sint_fits64: "fits64 v \<Longrightarrow> sint (word_of_int v :: 64 word) = v"
  by (simp add: fits64_def sint_sbintrunc' signed_take_bit_int_eq_self)

lemma word_of_int_fits64_eq:
  "fits64 x \<Longrightarrow> fits64 y \<Longrightarrow> (word_of_int x :: 64 word) = word_of_int y \<longleftrightarrow> x = y"
  by (metis sint_fits64)

lemma scast_literal: "d < 2 ^ 31 \<Longrightarrow> (scast (literal d) :: 64 word) = word_of_int (int d)"
proof -
  assume d: "d < 2 ^ 31"
  then have "min d LONG_MAX = d" by (simp add: LONG_MAX_def)
  then have "literal d = word_of_nat d" by (simp add: literal_def)
  moreover have "(scast (word_of_nat d :: 32 word) :: 64 word) = word_of_int (sint (word_of_nat d :: 32 word))"
    by (rule scast_eq)
  moreover have "sint (word_of_nat d :: 32 word) = int d"
    using d by (rule sint_word32_small)
  ultimately show ?thesis by (simp only:)
qed

lemma node_value_new_num: "node_value (new_num v) = scast v"
  by (simp add: new_num_def new_node_def)

lemma node_value_new_binary:
  "k \<noteq> ND_NUM \<Longrightarrow> node_value (new_binary k a b) = binop_value k (node_value a) (node_value b)"
  by (simp add: new_binary_def new_node_def)

lemma wf_norm: "wf_node (norm e)"
proof (induction e)
  case (Number d)
  show ?case by (simp add: wf_new_num)
next
  case (Sign s e)
  then show ?case by (cases s) (simp_all add: wf_new_num wf_new_binary)
next
  case (Binary op a b)
  then show ?case by (cases op) (simp_all add: wf_new_binary binary_node_def)
qed

lemma fits64_small: "d < 2 ^ 31 \<Longrightarrow> fits64 (int d)"
proof -
  assume "d < 2 ^ 31"
  then have "int d < 2 ^ 31" by (metis of_nat_less_iff of_nat_numeral of_nat_power)
  then show ?thesis by (simp add: fits64_def)
qed

lemma fits64_bool: "fits64 0" "fits64 1"
  by (simp_all add: fits64_def)

lemma apply_op_value:
  assumes "apply_op op x y = Some v" and "fits64 x" and "fits64 y"
    and "node_value a = word_of_int x" and "node_value b = word_of_int y"
  shows "fits64 v \<and> node_value (binary_node op a b) = word_of_int v"
proof (cases op)
  case Op_eq
  with assms show ?thesis
    by (auto simp: apply_op_def binary_node_def node_value_new_binary binop_value_def
        word_of_int_fits64_eq fits64_bool)
next
  case Op_ne
  with assms show ?thesis
    by (auto simp: apply_op_def binary_node_def node_value_new_binary binop_value_def
        word_of_int_fits64_eq fits64_bool)
next
  case Op_lt
  with assms show ?thesis
    by (auto simp: apply_op_def binary_node_def node_value_new_binary binop_value_def
        sint_fits64 fits64_bool)
next
  case Op_le
  with assms show ?thesis
    by (auto simp: apply_op_def binary_node_def node_value_new_binary binop_value_def
        sint_fits64 fits64_bool)
next
  case Op_gt
  with assms show ?thesis
    by (auto simp: apply_op_def binary_node_def node_value_new_binary binop_value_def
        sint_fits64 fits64_bool)
next
  case Op_ge
  with assms show ?thesis
    by (auto simp: apply_op_def binary_node_def node_value_new_binary binop_value_def
        sint_fits64 fits64_bool)
next
  case Op_add
  with assms show ?thesis
    by (auto simp: apply_op_def binary_node_def checked_def node_value_new_binary binop_value_def
        split: if_splits)
next
  case Op_sub
  with assms show ?thesis
    by (auto simp: apply_op_def binary_node_def checked_def node_value_new_binary binop_value_def
        split: if_splits)
next
  case Op_mul
  with assms show ?thesis
    by (auto simp: apply_op_def binary_node_def checked_def node_value_new_binary binop_value_def
        split: if_splits)
next
  case Op_div
  with assms show ?thesis
    by (auto simp: apply_op_def binary_node_def checked_def node_value_new_binary binop_value_def
        sdiv64_def sint_fits64 split: if_splits)
qed

text \<open>
The machine value of the tree of an expression is the value of the expression.
\<close>

lemma seval_value:
  "seval e = Some v \<Longrightarrow> fits64 v \<and> node_value (norm e) = word_of_int v"
proof (induction e arbitrary: v)
  case (Number d)
  then show ?case
    by (auto simp: fits64_small node_value_new_num scast_literal split: if_splits)
next
  case (Sign s e)
  from Sign.prems obtain x where x: "seval e = Some x"
    by (auto split: option.splits)
  with Sign.IH have ix: "fits64 x" "node_value (norm e) = word_of_int x" by auto
  show ?case
  proof (cases s)
    case Positive
    with Sign.prems x ix show ?thesis by simp
  next
    case Negative
    with Sign.prems x ix show ?thesis
      by (auto simp: checked_def node_value_new_binary node_value_new_num binop_value_def
          split: if_splits)
  qed
next
  case (Binary op a b)
  from Binary.prems obtain x y where x: "seval a = Some x" and y: "seval b = Some y"
    and v: "apply_op op x y = Some v"
    by (auto split: option.splits)
  from Binary.IH(1) [OF x] have a: "fits64 x" "node_value (norm a) = word_of_int x" by simp_all
  from Binary.IH(2) [OF y] have b: "fits64 y" "node_value (norm b) = word_of_int y" by simp_all
  from apply_op_value [OF v a(1) b(1) a(2) b(2)] show ?case by simp
qed

lemma binary_node_cases:
  obtains k where "k \<noteq> ND_NUM" and "binary_node op a b = new_binary k a b"
  | k where "k \<noteq> ND_NUM" and "binary_node op a b = new_binary k b a"
proof (cases op)
  case Op_eq
  then show ?thesis using that(1) [of ND_EQ] by (simp add: binary_node_def)
next
  case Op_ne
  then show ?thesis using that(1) [of ND_NE] by (simp add: binary_node_def)
next
  case Op_lt
  then show ?thesis using that(1) [of ND_LT] by (simp add: binary_node_def)
next
  case Op_le
  then show ?thesis using that(1) [of ND_LE] by (simp add: binary_node_def)
next
  case Op_gt
  then show ?thesis using that(2) [of ND_LT] by (simp add: binary_node_def)
next
  case Op_ge
  then show ?thesis using that(2) [of ND_LE] by (simp add: binary_node_def)
next
  case Op_add
  then show ?thesis using that(1) [of ND_ADD] by (simp add: binary_node_def)
next
  case Op_sub
  then show ?thesis using that(1) [of ND_SUB] by (simp add: binary_node_def)
next
  case Op_mul
  then show ?thesis using that(1) [of ND_MUL] by (simp add: binary_node_def)
next
  case Op_div
  then show ?thesis using that(1) [of ND_DIV] by (simp add: binary_node_def)
qed

lemma gen_assembles:
  "seval e = Some v \<Longrightarrow> loadable e \<Longrightarrow> gen (norm e) = Inr code \<Longrightarrow> list_all assembles code"
proof (induction e arbitrary: v code)
  case (Number d)
  from Number.prems(1) have d: "d < 2 ^ 31" by (simp split: if_splits)
  from scast_literal [OF d] have "(scast (literal d) :: 64 word) = word_of_nat d" by simp
  with Number.prems(2,3) show ?case by (auto simp: gen_new_num assembles_def)
next
  case (Sign s e)
  from Sign.prems(1) obtain x where x: "seval e = Some x"
    by (auto split: option.splits)
  have e: "list_all assembles c" if "gen (norm e) = Inr c" for c
    using Sign.IH [OF x _ that] Sign.prems(2) by simp
  show ?case
  proof (cases s)
    case Positive
    with Sign.prems(3) e show ?thesis by simp
  next
    case Negative
    have "list_all assembles c" if "gen (new_num 0) = Inr c" for c
      using that by (auto simp: gen_new_num assembles_def mov_immediate_small)
    with Sign.prems(3) Negative e show ?thesis
      using assembles_binary [of ND_SUB "new_num 0" "norm e" code] by simp
  qed
next
  case (Binary op a b)
  from Binary.prems(1) obtain x y where x: "seval a = Some x" and y: "seval b = Some y"
    by (auto split: option.splits)
  have a: "list_all assembles c" if "gen (norm a) = Inr c" for c
    using Binary.IH(1) [OF x _ that] Binary.prems(2) by simp
  have b: "list_all assembles c" if "gen (norm b) = Inr c" for c
    using Binary.IH(2) [OF y _ that] Binary.prems(2) by simp
  show ?case
  proof (cases op "norm a" "norm b" rule: binary_node_cases)
    case (1 k)
    with Binary.prems(3) show ?thesis
      using assembles_binary [of k "norm a" "norm b" code, OF _ _ a b] by simp
  next
    case (2 k)
    with Binary.prems(3) show ?thesis
      using assembles_binary [of k "norm b" "norm a" code, OF _ _ b a] by simp
  qed
qed

lemma compile_derives:
  assumes "tokenize \<lparr>user_input = arg, token = []\<rparr> = Inr (ts @ t # rest)"
    and "derives arg Expr ts e"
    and "\<forall>op \<in> binary_operators. \<not> is_op arg t op"
  shows "\<exists>code. gen (norm e) = Inr code \<and>
           compile arg = Inr ([GLOBL ''main'', LABEL ''main''] @ code @ [LDR_post X0, RET])"
proof -
  from tokenize_lexed [OF assms(1)] have "\<forall>x \<in> set ts. lexed arg x" by simp
  from expr_derives [OF assms(2) this assms(3)]
  have e: "expr (cursor_on arg (ts @ t # rest)) = Inr (norm e, cursor_on arg (t # rest))" .
  from exec_gen [OF wf_norm [of e]] obtain code where g: "gen (norm e) = Inr code"
    by blast
  from assms(1) e g
  have "compile arg = Inr ([GLOBL ''main'', LABEL ''main''] @ code @ [LDR_post X0, RET])"
    by (simp add: compile_def)
  with g show ?thesis by blast
qed

lemma returns_derives:
  assumes "tokenize \<lparr>user_input = arg, token = []\<rparr> = Inr (ts @ [eof])"
    and "kind eof = TK_EOF"
    and "derives arg Expr ts e" and "seval e = Some v" and "loadable e"
  shows "returns arg v"
proof -
  from assms(2) have "\<forall>op \<in> binary_operators. \<not> is_op arg eof op" by (simp add: eof_not_operator)
  from compile_derives [OF assms(1,3) this] obtain code where
    g: "gen (norm e) = Inr code"
    and c: "compile arg = Inr ([GLOBL ''main'', LABEL ''main''] @ code @ [LDR_post X0, RET])"
    by blast
  from exec_gen [OF wf_norm [of e]] g
  have x: "\<exists>m'. exec code m = Some m' \<and> stack m' = node_value (norm e) # stack m" for m
    by auto
  from gen_assembles [OF assms(4,5) g] have a: "list_all assembles code" .
  have r: "run ([GLOBL ''main'', LABEL ''main''] @ code @ [LDR_post X0, RET]) m =
      Some (node_value (norm e))" for m
    using x [of m] a by (rule run_program)
  from seval_value [OF assms(4)] have "sint (node_value (norm e)) = v"
    by (simp add: sint_fits64)
  with c r show ?thesis by (simp add: returns_def)
qed

lemma main_success:
  "compile arg = Inr prog \<Longrightarrow> main addr_byte [name, arg] = Exited (asm_text prog) [] 0"
  by (simp add: main_def)

lemma returnsI:
  "compile arg = Inr prog \<Longrightarrow> (\<And>m. run prog m = Some w) \<Longrightarrow> sint w = v \<Longrightarrow> returns arg v"
  by (auto simp: returns_def)

text \<open>
The six scenarios of the specification.
\<close>

lemma compile_1: "compile ''1+2*3'' =
  Inr [GLOBL ''main'', LABEL ''main'', MOV X2 1, STR_pre X2, MOV X2 2, STR_pre X2, MOV X2 3,
       STR_pre X2, LDR_post X1, LDR_post X0, MUL X0 X0 X1, STR_pre X0, LDR_post X1, LDR_post X0,
       ADD X0 X0 X1, STR_pre X0, LDR_post X0, RET]"
  by (simp add: compile_def lexer_defs)
     (simp add: parser_simps cursor_defs gen_op_def cong: bind_weak_cong)

lemma returns_1: "returns ''1+2*3'' 7"
  by (rule returnsI [OF compile_1, of 7]) (simp_all add: machine_defs run_def assembles_def mov_immediate_small)

lemma compile_2: "compile ''(1+2)*3'' =
  Inr [GLOBL ''main'', LABEL ''main'', MOV X2 1, STR_pre X2, MOV X2 2, STR_pre X2,
       LDR_post X1, LDR_post X0, ADD X0 X0 X1, STR_pre X0, MOV X2 3, STR_pre X2,
       LDR_post X1, LDR_post X0, MUL X0 X0 X1, STR_pre X0, LDR_post X0, RET]"
  by (simp add: compile_def lexer_defs)
     (simp add: parser_simps cursor_defs gen_op_def cong: bind_weak_cong)

lemma returns_2: "returns ''(1+2)*3'' 9"
  by (rule returnsI [OF compile_2, of 9]) (simp_all add: machine_defs run_def assembles_def mov_immediate_small)

lemma compile_3: "compile ''10/3'' =
  Inr [GLOBL ''main'', LABEL ''main'', MOV X2 10, STR_pre X2, MOV X2 3, STR_pre X2,
       LDR_post X1, LDR_post X0, SDIV X0 X0 X1, STR_pre X0, LDR_post X0, RET]"
  by (simp add: compile_def lexer_defs)
     (simp add: parser_simps cursor_defs gen_op_def cong: bind_weak_cong)

lemma returns_3: "returns ''10/3'' 3"
  by (rule returnsI [OF compile_3, of 3]) (simp_all add: machine_defs run_def assembles_def mov_immediate_small)

lemma compile_4: "compile ''1==1'' =
  Inr [GLOBL ''main'', LABEL ''main'', MOV X2 1, STR_pre X2, MOV X2 1, STR_pre X2,
       LDR_post X1, LDR_post X0, CMP X0 X1, CSET X0 EQ, STR_pre X0, LDR_post X0, RET]"
  by (simp add: compile_def lexer_defs)
     (simp add: parser_simps cursor_defs gen_op_def cong: bind_weak_cong)

lemma returns_4: "returns ''1==1'' 1"
  by (rule returnsI [OF compile_4, of 1]) (simp_all add: machine_defs run_def assembles_def mov_immediate_small)

lemma compile_5: "compile ''1!=1'' =
  Inr [GLOBL ''main'', LABEL ''main'', MOV X2 1, STR_pre X2, MOV X2 1, STR_pre X2,
       LDR_post X1, LDR_post X0, CMP X0 X1, CSET X0 NE, STR_pre X0, LDR_post X0, RET]"
  by (simp add: compile_def lexer_defs)
     (simp add: parser_simps cursor_defs gen_op_def cong: bind_weak_cong)

lemma returns_5: "returns ''1!=1'' 0"
  by (rule returnsI [OF compile_5, of 0]) (simp_all add: machine_defs run_def assembles_def mov_immediate_small)

lemma compile_6: "compile ''-5+3'' =
  Inr [GLOBL ''main'', LABEL ''main'', MOV X2 0, STR_pre X2, MOV X2 5, STR_pre X2,
       LDR_post X1, LDR_post X0, SUB X0 X0 X1, STR_pre X0, MOV X2 3, STR_pre X2,
       LDR_post X1, LDR_post X0, ADD X0 X0 X1, STR_pre X0, LDR_post X0, RET]"
  by (simp add: compile_def lexer_defs)
     (simp add: parser_simps cursor_defs gen_op_def cong: bind_weak_cong)

lemma returns_6: "returns ''-5+3'' (- 2)"
  by (rule returnsI [OF compile_6, of "- 2"]) (simp_all add: machine_defs run_def assembles_def mov_immediate_small)

text \<open>
The token records that the loop makes stand for the symbols of the input, so that an
instance of a rule of the grammar over the symbols is one over the records.
\<close>

lemma record_spelled: "symbol_at inp (q, s) \<Longrightarrow> spelled inp (record_of (q, s)) s"
proof (cases s)
  case (Operator x)
  assume "symbol_at inp (q, s)"
  with Operator show ?thesis
    by (simp add: symbol_at_def spelled_def record_of_def is_op_def mismatch_def memcmp_def)
next
  case (Digits ds)
  assume "symbol_at inp (q, s)"
  with Digits have ds: "ds = takeWhile isdigit (drop q inp)" by (simp add: symbol_at_def)
  have "take (length (takeWhile isdigit (drop q inp))) (drop q inp) = takeWhile isdigit (drop q inp)"
    by (rule takeWhile_eq_take [symmetric])
  with Digits ds show ?thesis
    by (simp add: spelled_def record_of_def lexeme_def)
qed

lemma scan_spelled:
  assumes "scan inp p = Inr syms"
  shows "list_all2 (spelled inp) (map record_of syms) (map snd syms)"
proof -
  from scan_symbols [OF assms] have "\<forall>x \<in> set syms. symbol_at inp x"
    by (simp add: list_all_iff)
  then have "\<forall>x \<in> set syms. spelled inp (record_of x) (snd x)"
    using record_spelled by (metis prod.collapse)
  then show ?thesis
    by (simp add: list_all2_map1 list_all2_map2 list_all2_same)
qed

lemma spelled_Operator: "spelled inp t (Operator x) \<longleftrightarrow> is_op inp t x"
  by (simp add: spelled_def)

lemma spelled_Digits: "spelled inp t (Digits ds) \<longleftrightarrow> kind t = TK_NUM \<and> lexeme inp t = ds"
  by (simp add: spelled_def)

lemma parses_derives:
  "parses r ss e \<Longrightarrow> list_all2 (spelled inp) ts ss \<Longrightarrow> derives inp r ts e"
proof (induction arbitrary: ts rule: parses.induct)
  case (expr ss e)
  then show ?case by (intro derives.expr) simp
next
  case (equality_operand ss e)
  then show ?case by (intro derives.equality_operand) simp
next
  case (equality_operator ss a op us b)
  from equality_operator.prems obtain ts1 t ts2 where ts: "ts = ts1 @ t # ts2"
    and l: "list_all2 (spelled inp) ts1 ss" and o: "is_op inp t (op_text op)"
    and r: "list_all2 (spelled inp) ts2 us"
    by (auto simp: list_all2_append2 list_all2_Cons2 spelled_Operator)
  from equality_operator.IH(1) [OF l] o equality_operator.hyps(2) equality_operator.IH(2) [OF r]
  show ?case unfolding ts by (rule derives.equality_operator)
next
  case (relational_operand ss e)
  then show ?case by (intro derives.relational_operand) simp
next
  case (relational_operator ss a op us b)
  from relational_operator.prems obtain ts1 t ts2 where ts: "ts = ts1 @ t # ts2"
    and l: "list_all2 (spelled inp) ts1 ss" and o: "is_op inp t (op_text op)"
    and r: "list_all2 (spelled inp) ts2 us"
    by (auto simp: list_all2_append2 list_all2_Cons2 spelled_Operator)
  from relational_operator.IH(1) [OF l] o relational_operator.hyps(2) relational_operator.IH(2) [OF r]
  show ?case unfolding ts by (rule derives.relational_operator)
next
  case (add_operand ss e)
  then show ?case by (intro derives.add_operand) simp
next
  case (add_operator ss a op us b)
  from add_operator.prems obtain ts1 t ts2 where ts: "ts = ts1 @ t # ts2"
    and l: "list_all2 (spelled inp) ts1 ss" and o: "is_op inp t (op_text op)"
    and r: "list_all2 (spelled inp) ts2 us"
    by (auto simp: list_all2_append2 list_all2_Cons2 spelled_Operator)
  from add_operator.IH(1) [OF l] o add_operator.hyps(2) add_operator.IH(2) [OF r]
  show ?case unfolding ts by (rule derives.add_operator)
next
  case (mul_operand ss e)
  then show ?case by (intro derives.mul_operand) simp
next
  case (mul_operator ss a op us b)
  from mul_operator.prems obtain ts1 t ts2 where ts: "ts = ts1 @ t # ts2"
    and l: "list_all2 (spelled inp) ts1 ss" and o: "is_op inp t (op_text op)"
    and r: "list_all2 (spelled inp) ts2 us"
    by (auto simp: list_all2_append2 list_all2_Cons2 spelled_Operator)
  from mul_operator.IH(1) [OF l] o mul_operator.hyps(2) mul_operator.IH(2) [OF r]
  show ?case unfolding ts by (rule derives.mul_operator)
next
  case (unary_plain ss e)
  then show ?case by (intro derives.unary_plain) simp
next
  case (unary_sign ss e s)
  from unary_sign.prems obtain t ts' where ts: "ts = t # ts'"
    and o: "is_op inp t (sign_text s)" and r: "list_all2 (spelled inp) ts' ss"
    by (auto simp: list_all2_Cons2 spelled_Operator)
  from o unary_sign.IH [OF r] show ?case unfolding ts by (rule derives.unary_sign)
next
  case (primary_number ds)
  then obtain t where ts: "ts = [t]" and k: "kind t = TK_NUM" and l: "lexeme inp t = ds"
    by (auto simp: list_all2_Cons2 spelled_Digits)
  from derives.primary_number [OF k, of inp] l show ?case unfolding ts by simp
next
  case (primary_paren ss e)
  from primary_paren.prems obtain l ts' r where ts: "ts = l # ts' @ [r]"
    and o: "is_op inp l ''(''" and m: "list_all2 (spelled inp) ts' ss" and c: "is_op inp r '')''"
    by (auto simp: list_all2_Cons2 list_all2_append2 spelled_Operator)
  from o primary_paren.IH [OF m] c show ?case unfolding ts by (rule derives.primary_paren)
qed

lemma returns_parses:
  assumes "scan arg 0 = Inr syms" and "parses Expr (map snd syms) e"
    and "seval e = Some v" and "loadable e"
  shows "returns arg v"
proof -
  let ?eof = "\<lparr>kind = TK_EOF, val = 0, str = length arg, len = 0\<rparr>"
  from assms(1) have t: "tokenize \<lparr>user_input = arg, token = []\<rparr> = Inr (map record_of syms @ [?eof])"
    by (simp add: tokenize_def tokenize_loop_scan)
  have k: "kind ?eof = TK_EOF" by simp
  from assms(2) scan_spelled [OF assms(1)] have "derives arg Expr (map record_of syms) e"
    by (rule parses_derives)
  with t k show ?thesis using assms(3,4) by (rule returns_derives)
qed


text \<open>
  Claim C1, amended. Let the symbols of the input, its operators and runs of digits in
  their order, be an expression of the grammar (unary sign before \<^verbatim>\<open>* /\<close> before \<^verbatim>\<open>+ -\<close>
  before the relational before the equality operators, each level grouping to the left),
  and let the expression have a value: division rounds towards zero, a comparison is 1 or
  0, every literal is below \<open>2 ^ 31\<close>, no divisor is 0 and no intermediate result leaves
  the signed 64-bit range. Let every literal be a value that one \<^verbatim>\<open>mov\<close> instruction of
  the target can load. Then the program compiles the input, the assembler accepts the
  emitted code, and the code returns the value of the expression. \<^verbatim>\<open>1+2*3\<close> returns 7,
  \<^verbatim>\<open>(1+2)*3\<close> 9, \<^verbatim>\<open>10/3\<close> 3, \<^verbatim>\<open>1==1\<close> 1, \<^verbatim>\<open>1!=1\<close> 0 and \<^verbatim>\<open>-5+3\<close> returns -2.
\<close>

theorem compiled_value:
  "(scan arg 0 = Inr syms \<and> parses Expr (map snd syms) e \<and> seval e = Some v \<and> loadable e \<longrightarrow>
      returns arg v) \<and>
   returns ''1+2*3'' 7 \<and> returns ''(1+2)*3'' 9 \<and> returns ''10/3'' 3 \<and>
   returns ''1==1'' 1 \<and> returns ''1!=1'' 0 \<and> returns ''-5+3'' (- 2)"
  using returns_parses [of arg syms e v] returns_1 returns_2 returns_3 returns_4 returns_5
    returns_6
  by blast

lemma parses_number:
  assumes "decimal ds = n"
  shows "parses Unary [Digits ds] (Number n)" and "parses Mul [Digits ds] (Number n)"
    and "parses Add [Digits ds] (Number n)" and "parses Expr [Digits ds] (Number n)"
proof -
  from parses.primary_number [of ds] assms have "parses Primary [Digits ds] (Number n)" by simp
  then show u: "parses Unary [Digits ds] (Number n)" by (rule parses.unary_plain)
  then show m: "parses Mul [Digits ds] (Number n)" by (rule parses.mul_operand)
  then show a: "parses Add [Digits ds] (Number n)" by (rule parses.add_operand)
  then show "parses Expr [Digits ds] (Number n)"
    by (intro parses.expr parses.equality_operand parses.relational_operand)
qed

theorem compiled_value_witness:
  "scan ''1+2*3'' 0 =
     Inr [(0, Digits ''1''), (1, Operator ''+''), (2, Digits ''2''), (3, Operator ''*''),
          (4, Digits ''3'')] \<and>
   parses Expr [Digits ''1'', Operator ''+'', Digits ''2'', Operator ''*'', Digits ''3'']
     (Binary Op_add (Number 1) (Binary Op_mul (Number 2) (Number 3))) \<and>
   seval (Binary Op_add (Number 1) (Binary Op_mul (Number 2) (Number 3))) = Some 7 \<and>
   loadable (Binary Op_add (Number 1) (Binary Op_mul (Number 2) (Number 3))) \<and>
   returns ''1+2*3'' 7"
proof -
  let ?syms = "[(0, Digits ''1''), (1, Operator ''+''), (2, Digits ''2''), (3, Operator ''*''),
    (4, Digits ''3'')]"
  let ?e = "Binary Op_add (Number 1) (Binary Op_mul (Number 2) (Number 3))"
  have s: "scan ''1+2*3'' 0 = Inr ?syms"
    by (simp add: scan_defs)
  have d1: "parses Add [Digits ''1''] (Number 1)"
    by (rule parses_number) (simp add: decimal_def digit_val_def)
  have d2: "parses Mul [Digits ''2''] (Number 2)"
    by (rule parses_number) (simp add: decimal_def digit_val_def)
  have d3: "parses Unary [Digits ''3''] (Number 3)"
    by (rule parses_number) (simp add: decimal_def digit_val_def)
  from parses.mul_operator [OF d2 _ d3, of Op_mul]
  have m: "parses Mul [Digits ''2'', Operator ''*'', Digits ''3''] (Binary Op_mul (Number 2) (Number 3))"
    by (simp add: op_text_def)
  from parses.add_operator [OF d1 _ m, of Op_add]
  have "parses Add [Digits ''1'', Operator ''+'', Digits ''2'', Operator ''*'', Digits ''3''] ?e"
    by (simp add: op_text_def)
  then have p: "parses Expr [Digits ''1'', Operator ''+'', Digits ''2'', Operator ''*'', Digits ''3''] ?e"
    by (intro parses.expr parses.equality_operand parses.relational_operand)
  have v: "seval ?e = Some 7"
    by (simp add: apply_op_def checked_def fits64_def)
  have l: "loadable ?e"
    by (simp add: mov_immediate_small)
  from compiled_value [of "''1+2*3''" ?syms ?e 7] s p v l
  have "returns ''1+2*3'' 7" by simp
  with s p v l show ?thesis by blast
qed

lemma compile_big: "compile ''2147483648'' =
  Inr [GLOBL ''main'', LABEL ''main'', MOV X2 2147483648, STR_pre X2, LDR_post X0, RET]"
  by (simp add: compile_def lexer_defs)
     (simp add: parser_simps cursor_defs gen_op_def cong: bind_weak_cong)

lemma compile_65537: "compile ''65537'' =
  Inr [GLOBL ''main'', LABEL ''main'', MOV X2 65537, STR_pre X2, LDR_post X0, RET]"
  by (simp add: compile_def lexer_defs)
     (simp add: parser_simps cursor_defs gen_op_def cong: bind_weak_cong)

text \<open>
The value \<open>- 2 ^ 31\<close> is a bitmask immediate, a run of 33 ones from bit 31; the value
65537 is none of the three kinds.
\<close>

lemma mov_immediate_min_int: "mov_immediate (- 2147483648)"
proof -
  have "unat (- 2147483648 :: 64 word) = 18446744071562067968" by simp
  moreover have "bitmask_immediate 18446744071562067968"
    unfolding bitmask_immediate_def
    by (rule bexI [of _ 64], rule bexI [of _ 33], rule bexI [of _ 31])
       (simp_all add: rotated_run_def)
  ultimately show ?thesis by (simp add: mov_immediate_def)
qed

lemma rotated_run_pos:
  assumes "0 < k" and "r < e"
  shows "0 < rotated_run e k r"
proof -
  from assms(1) have "(2::nat) ^ 1 \<le> 2 ^ k" by (intro power_increasing) simp_all
  then have k: "0 < (2::nat) ^ k - 1" by simp
  from assms(2) have "(2::nat) ^ r < 2 ^ e" by (intro power_strict_increasing) simp_all
  then have r: "0 < (2::nat) ^ e - 2 ^ r" by simp
  show ?thesis
  proof (cases "k + r \<le> e")
    case True
    then have "rotated_run e k r = (2 ^ k - 1) * 2 ^ r" by (simp add: rotated_run_def)
    with k show ?thesis by simp
  next
    case False
    then have "rotated_run e k r = (2 ^ e - 2 ^ r) + (2 ^ (k + r - e) - 1)"
      by (simp add: rotated_run_def)
    with r show ?thesis by linarith
  qed
qed

lemma not_bitmask_65537: "\<not> bitmask_immediate 65537"
proof
  assume "bitmask_immediate 65537"
  then obtain e k r where e: "e \<in> {2, 4, 8, 16, 32, 64}" and "k \<in> {1..<e}" and "r \<in> {0..<e}"
    and eq: "65537 = rotated_run e k r * ((2 ^ 64 - 1) div (2 ^ e - 1))"
    unfolding bitmask_immediate_def by blast
  then have k: "0 < k" "k < e" and r: "r < e" by simp_all
  from k(1) r have pos: "0 < rotated_run e k r" by (rule rotated_run_pos)
  from e consider "e = 64" | "e = 2" | "e = 4" | "e = 8" | "e = 16" | "e = 32" by blast
  then have c: "e = 64 \<or> (65537::nat) < (2 ^ 64 - 1) div (2 ^ e - 1)"
    by cases simp_all
  show False
  proof (cases "e = 64")
    case False
    with c have "(65537::nat) < (2 ^ 64 - 1) div (2 ^ e - 1)" by simp
    moreover from pos have "(2 ^ 64 - 1) div (2 ^ e - 1) \<le> rotated_run e k r * ((2 ^ 64 - 1) div (2 ^ e - 1))"
      by simp
    ultimately show False using eq by linarith
  next
    case True
    with eq have eq': "rotated_run 64 k r = 65537" by simp
    show False
    proof (cases "k + r \<le> 64")
      case le: True
      with eq' have m: "(2 ^ k - 1) * 2 ^ r = (65537::nat)" by (simp add: rotated_run_def)
      have r0: "r = 0"
      proof (rule ccontr)
        assume "r \<noteq> 0"
        then have "even ((2 ^ k - 1) * 2 ^ r :: nat)" by simp
        with m show False by simp
      qed
      with m have p: "(2::nat) ^ k = 65538" by simp
      show False
      proof (cases "k \<le> 16")
        case True
        then have "(2::nat) ^ k \<le> 2 ^ 16" by (intro power_increasing) simp_all
        with p show False by simp
      next
        case False
        then have "(2::nat) ^ 17 \<le> 2 ^ k" by (intro power_increasing) simp_all
        with p show False by simp
      qed
    next
      case gt: False
      with eq' have "2 ^ 64 - 2 ^ r + (2 ^ (k + r - 64) - 1) = (65537::nat)"
        by (simp add: rotated_run_def)
      moreover from r True have "(2::nat) ^ r \<le> 2 ^ 63" by (intro power_increasing) simp_all
      ultimately show False by simp
    qed
  qed
qed

lemma not_mov_immediate_65537: "\<not> mov_immediate 65537"
  by (simp add: mov_immediate_def wide_immediate_def not_bitmask_65537)

lemma mov_immediate_65536: "mov_immediate 65536"
  by (simp add: mov_immediate_def wide_immediate_def)

lemma compile_wrap: "compile ''65536*65536*65536*65536'' =
  Inr [GLOBL ''main'', LABEL ''main'', MOV X2 65536, STR_pre X2, MOV X2 65536, STR_pre X2,
       LDR_post X1, LDR_post X0, MUL X0 X0 X1, STR_pre X0, MOV X2 65536, STR_pre X2,
       LDR_post X1, LDR_post X0, MUL X0 X0 X1, STR_pre X0, MOV X2 65536, STR_pre X2,
       LDR_post X1, LDR_post X0, MUL X0 X0 X1, STR_pre X0, LDR_post X0, RET]"
  by (simp add: compile_def lexer_defs)
     (simp add: parser_simps cursor_defs gen_op_def cong: bind_weak_cong)

lemma returns_wrap: "returns ''65536*65536*65536*65536'' 0"
  by (rule returnsI [OF compile_wrap, of 0])
     (simp_all add: machine_defs run_def assembles_def mov_immediate_65536)

lemma parses_wrap:
  "parses Expr
     [Digits ''65536'', Operator ''*'', Digits ''65536'', Operator ''*'', Digits ''65536'',
      Operator ''*'', Digits ''65536'']
     (Binary Op_mul (Binary Op_mul (Binary Op_mul (Number 65536) (Number 65536)) (Number 65536))
        (Number 65536))"
proof -
  have m: "parses Mul [Digits ''65536''] (Number 65536)"
    by (rule parses_number) (simp add: decimal_def digit_val_def)
  have u: "parses Unary [Digits ''65536''] (Number 65536)"
    by (rule parses_number) (simp add: decimal_def digit_val_def)
  from parses.mul_operator [OF m _ u, of Op_mul]
  have "parses Mul [Digits ''65536'', Operator ''*'', Digits ''65536'']
      (Binary Op_mul (Number 65536) (Number 65536))"
    by (simp add: op_text_def)
  from parses.mul_operator [OF this _ u, of Op_mul]
  have "parses Mul [Digits ''65536'', Operator ''*'', Digits ''65536'', Operator ''*'', Digits ''65536'']
      (Binary Op_mul (Binary Op_mul (Number 65536) (Number 65536)) (Number 65536))"
    by (simp add: op_text_def)
  from parses.mul_operator [OF this _ u, of Op_mul]
  have "parses Mul
     [Digits ''65536'', Operator ''*'', Digits ''65536'', Operator ''*'', Digits ''65536'',
      Operator ''*'', Digits ''65536'']
     (Binary Op_mul (Binary Op_mul (Binary Op_mul (Number 65536) (Number 65536)) (Number 65536))
        (Number 65536))"
    by (simp add: op_text_def)
  then show ?thesis
    by (intro parses.expr parses.equality_operand parses.relational_operand parses.add_operand)
qed

lemma scan_wrap: "scan ''65536*65536*65536*65536'' 0 =
     Inr [(0, Digits ''65536''), (5, Operator ''*''), (6, Digits ''65536''), (11, Operator ''*''),
          (12, Digits ''65536''), (17, Operator ''*''), (18, Digits ''65536'')]"
  by (simp add: scan_defs)

text \<open>
  Claim C1 as stated fails in three ways. On a literal that does not fit an \<^verbatim>\<open>int\<close>: the
  code for \<^verbatim>\<open>2147483648\<close> returns \<open>- 2147483648\<close>. On a literal for which the target has
  no \<^verbatim>\<open>mov\<close> instruction: the assembler refuses the code for \<^verbatim>\<open>65537\<close>, so there is
  nothing to execute. On a result that does not fit a register: the code for
  \<^verbatim>\<open>65536*65536*65536*65536\<close> returns 0, and the value of the expression is \<open>2 ^ 64\<close>.
\<close>

theorem compiled_value_counterexample:
  "scan ''2147483648'' 0 = Inr [(0, Digits ''2147483648'')] \<and>
   parses Expr [Digits ''2147483648''] (Number 2147483648) \<and>
   returns ''2147483648'' (- 2147483648) \<and>
   \<not> returns ''2147483648'' 2147483648 \<and>
   scan ''65537'' 0 = Inr [(0, Digits ''65537'')] \<and>
   parses Expr [Digits ''65537''] (Number 65537) \<and>
   seval (Number 65537) = Some 65537 \<and>
   compile ''65537'' =
     Inr [GLOBL ''main'', LABEL ''main'', MOV X2 65537, STR_pre X2, LDR_post X0, RET] \<and>
   \<not> assembles (MOV X2 65537) \<and>
   (\<nexists>v. returns ''65537'' v) \<and>
   scan ''65536*65536*65536*65536'' 0 =
     Inr [(0, Digits ''65536''), (5, Operator ''*''), (6, Digits ''65536''), (11, Operator ''*''),
          (12, Digits ''65536''), (17, Operator ''*''), (18, Digits ''65536'')] \<and>
   parses Expr
     [Digits ''65536'', Operator ''*'', Digits ''65536'', Operator ''*'', Digits ''65536'',
      Operator ''*'', Digits ''65536'']
     (Binary Op_mul (Binary Op_mul (Binary Op_mul (Number 65536) (Number 65536)) (Number 65536))
        (Number 65536)) \<and>
   loadable (Number 65536) \<and>
   (65536 * 65536 * 65536 * 65536 :: int) = 2 ^ 64 \<and>
   returns ''65536*65536*65536*65536'' 0"
proof (intro conjI)
  show "scan ''65536*65536*65536*65536'' 0 =
     Inr [(0, Digits ''65536''), (5, Operator ''*''), (6, Digits ''65536''), (11, Operator ''*''),
          (12, Digits ''65536''), (17, Operator ''*''), (18, Digits ''65536'')]"
    by (rule scan_wrap)
  show "parses Expr
     [Digits ''65536'', Operator ''*'', Digits ''65536'', Operator ''*'', Digits ''65536'',
      Operator ''*'', Digits ''65536'']
     (Binary Op_mul (Binary Op_mul (Binary Op_mul (Number 65536) (Number 65536)) (Number 65536))
        (Number 65536))"
    by (rule parses_wrap)
  show "loadable (Number 65536)" by (simp add: mov_immediate_65536)
  show "(65536 * 65536 * 65536 * 65536 :: int) = 2 ^ 64" by simp
  show "returns ''65536*65536*65536*65536'' 0" by (rule returns_wrap)
  show "scan ''2147483648'' 0 = Inr [(0, Digits ''2147483648'')]"
    by (simp add: scan_defs)
  show "parses Expr [Digits ''2147483648''] (Number 2147483648)"
    by (rule parses_number) (simp add: decimal_def digit_val_def)
  have r: "run [GLOBL ''main'', LABEL ''main'', MOV X2 2147483648, STR_pre X2, LDR_post X0, RET] m =
      Some (- 2147483648)" for m
    by (simp add: machine_defs run_def assembles_def mov_immediate_min_int)
  have "sint (word_of_int (- 2147483648) :: 64 word) = - 2147483648"
    by (rule sint_fits64) (simp add: fits64_def)
  then have s: "sint (- 2147483648 :: 64 word) = - 2147483648" by simp
  show "returns ''2147483648'' (- 2147483648)"
    using r s by (rule returnsI [OF compile_big])
  show "\<not> returns ''2147483648'' 2147483648"
    using r by (auto simp: returns_def compile_big)
  show "scan ''65537'' 0 = Inr [(0, Digits ''65537'')]"
    by (simp add: scan_defs)
  show "parses Expr [Digits ''65537''] (Number 65537)"
    by (rule parses_number) (simp add: decimal_def digit_val_def)
  show "seval (Number 65537) = Some 65537" by simp
  show "compile ''65537'' =
     Inr [GLOBL ''main'', LABEL ''main'', MOV X2 65537, STR_pre X2, LDR_post X0, RET]"
    by (rule compile_65537)
  show a: "\<not> assembles (MOV X2 65537)"
    by (simp add: assembles_def not_mov_immediate_65537)
  then have "run [GLOBL ''main'', LABEL ''main'', MOV X2 65537, STR_pre X2, LDR_post X0, RET] m = None"
    for m
    by (simp add: run_def)
  then show "\<nexists>v. returns ''65537'' v"
    by (simp add: returns_def compile_65537)
qed

section \<open>Trailing tokens\<close>

text \<open>
  Claim C2, amended. Let the tokens of the input start with an expression of the grammar,
  and let the token behind it, the first trailing token, not be a binary operator. Then
  \<^verbatim>\<open>main\<close> does not look at the trailing tokens: it exits with status 0 and prints the
  code of the leading expression between its prologue and epilogue, and nothing on the
  error stream.
\<close>

theorem trailing_tokens_accepted:
  assumes "tokenize \<lparr>user_input = arg, token = []\<rparr> = Inr (ts @ t # rest)"
    and "derives arg Expr ts e"
    and "\<forall>op \<in> binary_operators. \<not> is_op arg t op"
  shows "\<exists>code. gen (norm e) = Inr code \<and>
           main addr_byte [name, arg] =
             Exited (asm_text ([GLOBL ''main'', LABEL ''main''] @ code @ [LDR_post X0, RET])) [] 0"
proof -
  from compile_derives [OF assms] obtain code where "gen (norm e) = Inr code"
    "compile arg = Inr ([GLOBL ''main'', LABEL ''main''] @ code @ [LDR_post X0, RET])"
    by blast
  then show ?thesis by (auto simp: main_success)
qed

lemma tokenize_1_2:
  "tokenize \<lparr>user_input = ''1 2'', token = []\<rparr> =
     Inr ([\<lparr>kind = TK_NUM, val = 1, str = 0, len = 1\<rparr>] @
          \<lparr>kind = TK_NUM, val = 2, str = 2, len = 1\<rparr> #
          [\<lparr>kind = TK_EOF, val = 0, str = 3, len = 0\<rparr>])"
  by (simp add: lexer_defs)

theorem trailing_tokens_accepted_witness:
  "tokenize \<lparr>user_input = ''1 2'', token = []\<rparr> =
     Inr ([\<lparr>kind = TK_NUM, val = 1, str = 0, len = 1\<rparr>] @
          \<lparr>kind = TK_NUM, val = 2, str = 2, len = 1\<rparr> #
          [\<lparr>kind = TK_EOF, val = 0, str = 3, len = 0\<rparr>]) \<and>
   derives ''1 2'' Expr [\<lparr>kind = TK_NUM, val = 1, str = 0, len = 1\<rparr>] (Number 1) \<and>
   {op \<in> binary_operators. is_op ''1 2'' \<lparr>kind = TK_NUM, val = 2, str = 2, len = 1\<rparr> op} = {} \<and>
   main question_mark [''9cc'', ''1 2''] =
     Exited (asm_text [GLOBL ''main'', LABEL ''main'', MOV X2 1, STR_pre X2, LDR_post X0, RET]) [] 0"
proof -
  let ?t1 = "\<lparr>kind = TK_NUM, val = 1, str = 0, len = 1\<rparr>"
  let ?t2 = "\<lparr>kind = TK_NUM, val = 2, str = 2, len = 1\<rparr>"
  have d: "derives ''1 2'' Expr [?t1] (Number 1)"
    by (rule derives_number) (simp_all add: lexeme_def decimal_def digit_val_def)
  have n: "\<forall>op \<in> binary_operators. \<not> is_op ''1 2'' ?t2 op"
    by (simp add: is_op_def mismatch_def)
  from trailing_tokens_accepted [OF tokenize_1_2 d n, of question_mark "''9cc''"]
  have "main question_mark [''9cc'', ''1 2''] =
     Exited (asm_text [GLOBL ''main'', LABEL ''main'', MOV X2 1, STR_pre X2, LDR_post X0, RET]) [] 0"
    by (auto simp: new_num_def new_node_def literal_def LONG_MAX_def)
  moreover from n have "{op \<in> binary_operators. is_op ''1 2'' ?t2 op} = {}" by blast
  ultimately show ?thesis using tokenize_1_2 d by blast
qed

text \<open>
  Claim C2 as stated fails when the trailing tokens begin with a binary operator: in
  \<^verbatim>\<open>1+\<close> the token \<^verbatim>\<open>1\<close> is an expression, and the program exits with status 1.
\<close>

theorem trailing_operator_counterexample:
  "tokenize \<lparr>user_input = ''1+'', token = []\<rparr> =
     Inr [\<lparr>kind = TK_NUM, val = 1, str = 0, len = 1\<rparr>,
          \<lparr>kind = TK_RESERVED, val = 0, str = 1, len = 1\<rparr>,
          \<lparr>kind = TK_EOF, val = 0, str = 2, len = 0\<rparr>] \<and>
   derives ''1+'' Expr [\<lparr>kind = TK_NUM, val = 1, str = 0, len = 1\<rparr>] (Number 1) \<and>
   main question_mark [''9cc'', ''1+''] =
     Exited [] (error_at question_mark ''1+'' 2 Not_number) 1"
proof (intro conjI)
  show "tokenize \<lparr>user_input = ''1+'', token = []\<rparr> =
     Inr [\<lparr>kind = TK_NUM, val = 1, str = 0, len = 1\<rparr>,
          \<lparr>kind = TK_RESERVED, val = 0, str = 1, len = 1\<rparr>,
          \<lparr>kind = TK_EOF, val = 0, str = 2, len = 0\<rparr>]"
    by (simp add: lexer_defs)
  show "derives ''1+'' Expr [\<lparr>kind = TK_NUM, val = 1, str = 0, len = 1\<rparr>] (Number 1)"
    by (rule derives_number) (simp_all add: lexeme_def decimal_def digit_val_def)
  show "main question_mark [''9cc'', ''1+''] =
     Exited [] (error_at question_mark ''1+'' 2 Not_number) 1"
    by (simp add: main_def compile_def lexer_defs)
       (simp add: parser_simps cursor_defs numeral_2_eq_2 cong: bind_weak_cong)
qed

section \<open>Error reports\<close>

text \<open>
  On every failure of the lexer or the parser \<^verbatim>\<open>main\<close> prints nothing on the standard
  output and exits with status 1; the error stream holds the input line, then blanks, the
  caret and the message. There is at least one blank, also for the offset 0.
\<close>

lemma main_failure:
  "compile arg = Inl (Error_at loc m) \<Longrightarrow>
   main addr_byte [name, arg] =
     Exited [] (arg @ [newline] @ replicate (max loc 1) (CHR '' '') @ ''^ '' @
                message_text addr_byte m @ [newline]) 1"
proof -
  have "replicate (loc - Suc 0) (CHR '' '') @ '' '' = replicate (max loc 1) (CHR '' '')"
    by (cases loc) (simp_all add: replicate_append_same)
  moreover assume "compile arg = Inl (Error_at loc m)"
  ultimately show ?thesis
    by (simp add: main_def error_at_def printf_width_def)
qed

text \<open>
  Claim C3. The claim places the caret of the input \<^verbatim>\<open>a\<close> under offset 0. The program
  prints one blank before the caret there, since \<^verbatim>\<open>printf("%*s", pos, " ")\<close> prints the
  blank it is given even in a field of width 0: the caret stands in column 1, and the
  reports for the offsets 0 and 1 are the same.
\<close>

theorem caret_at_offset_zero:
  "main addr_byte [name, ''a''] =
     Exited [] (''a'' @ [newline] @ '' ^ '' @ message_text addr_byte Cannot_tokenize @ [newline]) 1 \<and>
   error_at addr_byte inp 0 m = error_at addr_byte inp 1 m"
  by (simp add: main_def compile_def lexer_defs error_at_def printf_width_def)

end
